theory Spec2Isabelle
  imports Complex_Main
begin

section \<open>Python values shared by the models\<close>

text \<open>
  The exceptions the modelled functions of \<open>praxis/base_layer.py\<close> can raise.
  A failing \<open>assert\<close> is \<open>AssertionError\<close>.
\<close>

datatype py_error = ValueError | AssertionError | IndexError | KeyError

text \<open>Python's \<open>key.endswith(suffix)\<close> and \<open>key[:-n]\<close> on strings.\<close>

definition endswith :: "string \<Rightarrow> string \<Rightarrow> bool" where
  "endswith key sfx =
     (length sfx \<le> length key \<and> drop (length key - length sfx) key = sfx)"

definition drop_last :: "string \<Rightarrow> nat \<Rightarrow> string" where
  \<comment> \<open>\<open>key[:-n]\<close>; for \<open>n = 0\<close> Python reads \<open>key[:0]\<close>, the empty string.\<close>
  "drop_last key n = (if n = 0 then [] else take (length key - n) key)"

text \<open>
  Python's \<open>xs[i]\<close> on a sequence: a negative index counts from the end, an index out of
  range raises \<open>IndexError\<close>.
\<close>

definition py_index :: "'a list \<Rightarrow> int \<Rightarrow> py_error + 'a" where
  "py_index xs i =
     (let j = (if i < 0 then i + int (length xs) else i)
      in if j < 0 \<or> int (length xs) \<le> j then Inl IndexError else Inr (xs ! nat j))"

section \<open>Fan-in and fan-out of a weight shape\<close>

text \<open>
  \<open>get_fan_in_fan_out\<close> (base_layer.py, lines 547-581). The loop
  \<open>for i in axes: acc *= shape[i]\<close> is \<open>mul_axes\<close>; \<open>shape[i]\<close> can raise.
  The test \<open>not shape\<close> is true of the empty sequence, so it comes first, as in the source.
\<close>

fun mul_axes :: "int list \<Rightarrow> int list \<Rightarrow> int \<Rightarrow> py_error + int" where
  "mul_axes shape [] acc = Inr acc"
| "mul_axes shape (i # axes) acc =
     (case py_index shape i of
        Inl e \<Rightarrow> Inl e
      | Inr d \<Rightarrow> mul_axes shape axes (acc * d))"

definition get_fan_in_fan_out ::
  "int list \<Rightarrow> int list option \<Rightarrow> int list option \<Rightarrow> py_error + (int option \<times> int option)" where
  "get_fan_in_fan_out shape fan_in_axes fan_out_axes =
     (if shape = [] then Inr (None, None)
      else if length shape < 1 then Inr (Some 1, Some 1)
      else if length shape = 1 then Inr (Some (shape ! 0), Some (shape ! 0))
      else
        (case (if fan_in_axes = None \<and> fan_out_axes = None
               then Inr ([-2], [-1], map int [0 ..< length shape - 2])
               else (case fan_in_axes of
                       None \<Rightarrow> Inl AssertionError
                     | Some ia \<Rightarrow>
                        (case fan_out_axes of
                           None \<Rightarrow> Inl AssertionError
                         | Some oa \<Rightarrow> Inr (ia, oa, [])))) of
           Inl e \<Rightarrow> Inl e
         | Inr (ia, oa, receptive_field_axis) \<Rightarrow>
            (case mul_axes shape receptive_field_axis 1 of
               Inl e \<Rightarrow> Inl e
             | Inr receptive_field_size \<Rightarrow>
                (case mul_axes shape ia 1 of
                   Inl e \<Rightarrow> Inl e
                 | Inr fan_in \<Rightarrow>
                    (case mul_axes shape oa 1 of
                       Inl e \<Rightarrow> Inl e
                     | Inr fan_out \<Rightarrow>
                        Inr (Some (fan_in * receptive_field_size),
                             Some (fan_out * receptive_field_size)))))))"

section \<open>Summary types and summary keys\<close>

text \<open>
  \<open>SummaryType\<close> (base_layer.py, lines 882-899). Iterating the enum class follows the
  order of definition, which \<open>all_summary_types\<close> records; \<open>name_lower\<close> is
  \<open>t.name.lower()\<close>.
\<close>

datatype SummaryType =
  SCALAR | IMAGE | TEXT | AUDIO | VIDEO | HISTOGRAM | AGGREGATE_SCALAR | AGGREGATE_IMAGE

definition all_summary_types :: "SummaryType list" where
  "all_summary_types =
     [SCALAR, IMAGE, TEXT, AUDIO, VIDEO, HISTOGRAM, AGGREGATE_SCALAR, AGGREGATE_IMAGE]"

fun name_lower :: "SummaryType \<Rightarrow> string" where
  "name_lower SCALAR = ''scalar''"
| "name_lower IMAGE = ''image''"
| "name_lower TEXT = ''text''"
| "name_lower AUDIO = ''audio''"
| "name_lower VIDEO = ''video''"
| "name_lower HISTOGRAM = ''histogram''"
| "name_lower AGGREGATE_SCALAR = ''aggregate_scalar''"
| "name_lower AGGREGATE_IMAGE = ''aggregate_image''"

fun get_summary_base_type :: "SummaryType \<Rightarrow> SummaryType" where
  "get_summary_base_type AGGREGATE_SCALAR = SCALAR"
| "get_summary_base_type AGGREGATE_IMAGE = IMAGE"
| "get_summary_base_type t = t"

definition get_summary_type_suffix :: "SummaryType \<Rightarrow> string" where
  "get_summary_type_suffix t = ''_'' @ name_lower (get_summary_base_type t)"

text \<open>
  \<open>get_summary_type_from_key\<close> and \<open>trim_summary_type_from_key\<close> (lines 916-928): the
  first type, in iteration order, whose suffix ends the key decides; no match raises
  \<open>ValueError\<close>.
\<close>

definition get_summary_type_from_key :: "string \<Rightarrow> py_error + SummaryType" where
  "get_summary_type_from_key key =
     (case find (\<lambda>t. endswith key (''_'' @ name_lower t)) all_summary_types of
        Some t \<Rightarrow> Inr t
      | None \<Rightarrow> Inl ValueError)"

definition trim_summary_type_from_key :: "string \<Rightarrow> py_error + string" where
  "trim_summary_type_from_key key =
     (case find (\<lambda>t. endswith key (''_'' @ name_lower t)) all_summary_types of
        Some t \<Rightarrow> Inr (drop_last key (length (''_'' @ name_lower t)))
      | None \<Rightarrow> Inl ValueError)"

text \<open>
  Python's \<open>str(n)\<close> for a non-negative integer: its decimal digits, most significant first.
\<close>

definition digit_char :: "nat \<Rightarrow> char" where
  "digit_char d = ''0123456789'' ! d"

function str_nat :: "nat \<Rightarrow> string" where
  "str_nat n = (if n < 10 then [digit_char n] else str_nat (n div 10) @ [digit_char (n mod 10)])"
  by pat_completeness auto
termination
  by (relation "measure (\<lambda>n. n)") auto

declare str_nat.simps [simp del]

text \<open>
  The loop shared by both \<open>add_summary\<close> methods:
  \<^verbatim>\<open>
    next_iter = 0
    while full_name in keys:
      next_iter += 1
      full_name = base + str(next_iter) + suffix
  \<close>
  It runs until the candidate name is not a key. \<open>scan_free_name\<close> is the loop as a partial
  function: a run that never ends would be \<open>None\<close>.
\<close>

partial_function (option) scan_free_name ::
  "string list \<Rightarrow> string \<Rightarrow> string \<Rightarrow> nat \<Rightarrow> string \<Rightarrow> string option" where
  "scan_free_name keys base sfx next_iter full_name =
     (if full_name \<in> set keys
      then scan_free_name keys base sfx (next_iter + 1) (base @ str_nat (next_iter + 1) @ sfx)
      else Some full_name)"

text \<open>
  A tensor, as far as this code looks at it: its dtype, its shape (\<open>ndim\<close> is the length)
  and its contents, which stay abstract. \<open>astype\<close> changes the dtype; the rounding of the
  contents is outside the model. \<open>expand_dims(tensor, 0)\<close> adds a leading axis of size 1.
\<close>

datatype dtype = Float32 | BFloat16 | Float16 | Float64 | Int32 | Int8 | Bool

fun is_floating :: "dtype \<Rightarrow> bool" where
  "is_floating Float32 = True"
| "is_floating BFloat16 = True"
| "is_floating Float16 = True"
| "is_floating Float64 = True"
| "is_floating _ = False"

record 'a tensor =
  t_dtype :: dtype
  t_shape :: "nat list"
  t_data :: 'a

definition ndim :: "'a tensor \<Rightarrow> nat" where
  "ndim x = length (t_shape x)"

definition expand_dims0 :: "'a tensor \<Rightarrow> 'a tensor" where
  "expand_dims0 x = x\<lparr>t_shape := 1 # t_shape x\<rparr>"

definition astype :: "'a tensor \<Rightarrow> dtype \<Rightarrow> 'a tensor" where
  "astype x d = x\<lparr>t_dtype := d\<rparr>"

text \<open>
  A dict that keeps insertion order, as an association list: \<open>d[k] = v\<close> replaces the value
  of an existing key in place and appends a new key at the end.
\<close>

fun dict_set :: "('k \<times> 'v) list \<Rightarrow> 'k \<Rightarrow> 'v \<Rightarrow> ('k \<times> 'v) list" where
  "dict_set [] k v = [(k, v)]"
| "dict_set ((k', v') # d) k v = (if k' = k then (k, v) # d else (k', v') # dict_set d k v)"

text \<open>
  \<open>_SummaryDict.add_summary\<close> (lines 942-968). The scan tests the fully suffixed name
  against the keys of the dict. An image summary of rank 3 gets a batch axis and must then
  have rank 4; an audio summary of rank 2 gets a batch axis.
\<close>

definition SummaryDict_add_summary ::
  "(string \<times> 'a tensor) list \<Rightarrow> string \<Rightarrow> 'a tensor \<Rightarrow> SummaryType \<Rightarrow>
   (py_error + (string \<times> 'a tensor) list) option" where
  "SummaryDict_add_summary dict name tensor summary_type =
     (let summary_suffix = get_summary_type_suffix summary_type in
      case scan_free_name (map fst dict) name summary_suffix 0 (name @ summary_suffix) of
        None \<Rightarrow> None
      | Some full_name \<Rightarrow>
          Some
           (let tensor1 =
                  (if (summary_type = IMAGE \<or> summary_type = AGGREGATE_IMAGE) \<and> ndim tensor = 3
                   then expand_dims0 tensor else tensor)
            in if (summary_type = IMAGE \<or> summary_type = AGGREGATE_IMAGE) \<and> ndim tensor1 \<noteq> 4
               then Inl AssertionError
               else
                 (let tensor2 = (if summary_type = AUDIO \<and> ndim tensor1 = 2
                                 then expand_dims0 tensor1 else tensor1)
                  in Inr (dict_set dict full_name tensor2))))"

text \<open>
  The part of a layer that \<open>BaseLayer.add_summary\<close> (lines 1866-1913) touches: the
  \<open>summaries\<close> variable collection of the layer's scope and whether that collection is
  mutable. \<open>has_variable\<close> tests for a key of the collection; \<open>sow\<close> with the reduce function
  \<open>lambda x, y: y\<close> stores the new value under the key, replacing an earlier one, and does
  nothing when the collection is not mutable.
\<close>

record 'a summaries_collection =
  summaries :: "(string \<times> 'a tensor) list"
  summaries_mutable :: bool

definition sow_summaries ::
  "'a summaries_collection \<Rightarrow> string \<Rightarrow> 'a tensor \<Rightarrow> 'a summaries_collection" where
  "sow_summaries layer name value =
     (if summaries_mutable layer
      then layer\<lparr>summaries := dict_set (summaries layer) name value\<rparr>
      else layer)"

text \<open>
  \<open>BaseLayer.add_summary\<close>. \<open>context_verbosity\<close> is \<open>None\<close> when no JaxContext is active and
  the active context's \<open>summary_verbosity\<close> otherwise. The scan
  \<open>while self.has_variable(SUMMARIES, full_name)\<close> tests the name without the type suffix
  (the suffix argument of the loop is empty) against the keys of the collection, and the
  type suffix is appended after the scan.
\<close>

definition BaseLayer_add_summary ::
  "int option \<Rightarrow> 'a summaries_collection \<Rightarrow> string \<Rightarrow> 'a tensor \<Rightarrow> SummaryType \<Rightarrow> int \<Rightarrow>
   (py_error + 'a summaries_collection) option" where
  "BaseLayer_add_summary context_verbosity layer name tensor summary_type verbosity =
     (if (case context_verbosity of None \<Rightarrow> False | Some cv \<Rightarrow> verbosity > cv)
      then Some (Inr layer)
      else
        (case scan_free_name (map fst (summaries layer)) name [] 0 name of
           None \<Rightarrow> None
         | Some scanned \<Rightarrow>
             Some
              (let full_name = scanned @ get_summary_type_suffix summary_type in
               if summary_type = IMAGE then
                 (let tensor1 = (if ndim tensor = 3 then expand_dims0 tensor else tensor)
                  in if ndim tensor1 \<noteq> 4 then Inl AssertionError
                     else Inr (sow_summaries layer full_name tensor1))
               else if summary_type = AUDIO then
                 (let tensor1 = (if ndim tensor = 2 then expand_dims0 tensor else tensor)
                  in if ndim tensor1 \<noteq> 3 then Inl AssertionError
                     else Inr (sow_summaries layer full_name tensor1))
               else Inr (sow_summaries layer full_name tensor))))"

section \<open>The ambient context stack\<close>

text \<open>
  \<open>_JaxContextStack.stack\<close> is a Python list of JaxContext objects whose top is its last
  element. \<open>__exit__\<close> compares with \<open>is\<close>, so a frame is modelled by its identity.
  \<open>JaxContext.__enter__\<close>, \<open>__exit__\<close>, \<open>top\<close> and \<open>has_context\<close> (lines 1037-1053).
\<close>

type_synonym frame = nat

definition JaxContext_enter :: "frame \<Rightarrow> frame list \<Rightarrow> frame list" where
  "JaxContext_enter self stack = stack @ [self]"

definition JaxContext_exit :: "frame \<Rightarrow> frame list \<Rightarrow> py_error + frame list" where
  "JaxContext_exit self stack =
     (if stack = [] then Inl AssertionError
      else if last stack \<noteq> self then Inl AssertionError
      else Inr (butlast stack))"

definition JaxContext_top :: "frame list \<Rightarrow> frame option" where
  "JaxContext_top stack = (if stack \<noteq> [] then Some (last stack) else None)"

definition has_context :: "frame list \<Rightarrow> bool" where
  "has_context stack = (length stack > 0)"

text \<open>
  Code that runs under the stack. The stack is private to the module and only
  \<open>__enter__\<close> and \<open>__exit__\<close> write it, so a computation whose frames are all entered by
  scoped acquisition is built from: code that returns, code that raises, code whose outcome
  depends on what it reads from the stack (\<open>Observe\<close>), sequencing, and
  \<open>with frame: body\<close>. \<open>run\<close> gives the exception raised, if any, and the stack left behind.
  Python's \<open>with\<close> calls \<open>__enter__\<close>, runs the body and calls \<open>__exit__\<close> whether the body
  returned or raised; \<open>__exit__\<close> returns \<open>None\<close>, so an exception of the body propagates,
  and an exception raised by \<open>__exit__\<close> itself replaces it.
\<close>

datatype computation =
  Pass
| Raise py_error
| Observe "frame list \<Rightarrow> py_error option"
| Then computation computation
| With frame computation

fun run :: "computation \<Rightarrow> frame list \<Rightarrow> py_error option \<times> frame list" where
  "run Pass stack = (None, stack)"
| "run (Raise e) stack = (Some e, stack)"
| "run (Observe f) stack = (f stack, stack)"
| "run (Then a b) stack =
     (case run a stack of
        (Some e, stack1) \<Rightarrow> (Some e, stack1)
      | (None, stack1) \<Rightarrow> run b stack1)"
| "run (With self body) stack =
     (case run body (JaxContext_enter self stack) of
        (outcome, stack1) \<Rightarrow>
          (case JaxContext_exit self stack1 of
             Inl e \<Rightarrow> (Some e, stack1)
           | Inr stack2 \<Rightarrow> (outcome, stack2)))"

section \<open>Reading a trainable variable through theta\<close>

text \<open>
  What \<open>Theta.__getattr__\<close> and \<open>Theta.__getitem__\<close> (lines 1146-1177; the two bodies are
  the same) see of a layer: whether \<open>setup\<close> has run, the layer's \<open>fprop_dtype\<close>
  (\<open>layer_fprop_dtype\<close>), the
  \<open>params\<close> collection and \<open>_weight_hparams\<close>. Of a \<open>WeightHParams\<close> only \<open>collections\<close>
  is read.
\<close>

record 'a layer_vars =
  setup_called :: bool
  layer_fprop_dtype :: dtype
  params :: "string \<rightharpoonup> 'a tensor"
  weight_hparams :: "string \<rightharpoonup> string list"

definition DISALLOW_BFLOAT16_CONVERSION :: string where
  "DISALLOW_BFLOAT16_CONVERSION = ''_disallow_bfloat16_conversion''"

definition var_disallow_bfloat16_conversion :: "string list \<Rightarrow> bool" where
  "var_disallow_bfloat16_conversion collections =
     (DISALLOW_BFLOAT16_CONVERSION \<in> set collections)"

text \<open>
  \<open>_try_setup\<close> runs the layer's \<open>setup\<close> once; \<open>setup\<close> is the subclass's code and a
  parameter here.
\<close>

definition try_setup :: "('a layer_vars \<Rightarrow> 'a layer_vars) \<Rightarrow> 'a layer_vars \<Rightarrow> 'a layer_vars" where
  "try_setup setup layer =
     (if setup_called layer then layer else (setup layer)\<lparr>setup_called := True\<rparr>)"

text \<open>\<open>BaseLayer._cast_to_fprop_dtype\<close> (lines 2235-2246) on one tensor.\<close>

definition cast_to_fprop_dtype :: "dtype \<Rightarrow> 'a tensor \<Rightarrow> 'a tensor" where
  "cast_to_fprop_dtype fprop x =
     (if fprop \<noteq> t_dtype x \<and> is_floating (t_dtype x) then astype x fprop else x)"

definition Theta_getattr ::
  "('a layer_vars \<Rightarrow> 'a layer_vars) \<Rightarrow> 'a layer_vars \<Rightarrow> string \<Rightarrow>
   (py_error + 'a tensor) \<times> 'a layer_vars" where
  "Theta_getattr setup layer0 k =
     (let layer = try_setup setup layer0 in
      case params layer k of
        None \<Rightarrow> (Inl ValueError, layer)
      | Some variable \<Rightarrow>
          (case weight_hparams layer k of
             None \<Rightarrow> (Inl KeyError, layer)
           | Some var_hparams \<Rightarrow>
               if layer_fprop_dtype layer = BFloat16 \<and> var_disallow_bfloat16_conversion var_hparams
               then (Inr variable, layer)
               else (Inr (cast_to_fprop_dtype (layer_fprop_dtype layer) variable), layer)))"

section \<open>The shared-layer cache\<close>

text \<open>
  A layer config as \<open>instantiate_layer\<close> (lines 1193-1236) reads it: \<open>name\<close>,
  \<open>shared_weight_layer_id\<close> and everything else (\<open>rest\<close>). Layers and wrappers are objects,
  known by their identity; \<open>next_object\<close> numbers the objects made so far, and
  \<open>instantiated\<close> lists the weight-owning layers constructed, oldest first.
  \<open>shared_layers\<close> is \<open>_root_scope_to_shared_layers_map\<close> of the current JaxContext, a
  defaultdict whose missing entries read as \<open>None\<close>; \<open>cur_jax_context\<close> is \<open>JaxContext.top()\<close>.
\<close>

record 'r layer_p =
  name :: string
  shared_weight_layer_id :: "string option"
  rest :: 'r

record 'r SharedLayerCacheEntry =
  entry_layer :: nat
  entry_hparams :: "'r layer_p"
  entry_wrapper :: nat

type_synonym 'r shared_layers = "nat \<times> string \<rightharpoonup> 'r SharedLayerCacheEntry"

record 'r world =
  cur_jax_context :: "'r shared_layers option"
  next_object :: nat
  instantiated :: "nat list"

definition compatible_hparams :: "'r layer_p \<Rightarrow> 'r layer_p \<Rightarrow> bool" where
  "compatible_hparams hparams1 hparams2 =
     (hparams1\<lparr>name := []\<rparr> = hparams2\<lparr>name := []\<rparr>)"

definition lookup_shared_layer ::
  "'r shared_layers \<Rightarrow> nat \<Rightarrow> string \<Rightarrow> 'r SharedLayerCacheEntry option" where
  "lookup_shared_layer m root_scope shared_layer_id = m (root_scope, shared_layer_id)"

text \<open>
  \<open>set_shared_layer\<close> (lines 1086-1094); \<open>wrapper_cld\<close> is \<open>wrapper.cld\<close>, the layer the
  wrapper owns.
\<close>

definition set_shared_layer ::
  "'r shared_layers \<Rightarrow> nat \<Rightarrow> string \<Rightarrow> nat \<Rightarrow> nat \<Rightarrow> 'r layer_p \<Rightarrow>
   py_error + 'r shared_layers" where
  "set_shared_layer m root_scope shared_layer_id wrapper wrapper_cld layer_hparams =
     (case lookup_shared_layer m root_scope shared_layer_id of
        Some existing \<Rightarrow> Inl AssertionError
      | None \<Rightarrow>
          Inr (m((root_scope, shared_layer_id) \<mapsto>
                 \<lparr>entry_layer = wrapper_cld, entry_hparams = layer_hparams,
                  entry_wrapper = wrapper\<rparr>)))"

text \<open>
  Python's truth value of an \<open>Optional[str]\<close>: \<open>None\<close> and the empty string are false.
\<close>

definition truthy :: "string option \<Rightarrow> bool" where
  "truthy s = (case s of None \<Rightarrow> False | Some v \<Rightarrow> v \<noteq> [])"

text \<open>
  \<open>instantiate_layer\<close>. Constructing a layer takes the next object number. In the branch
  that finds no cached entry, the wrapper is constructed first and then the layer it owns
  (\<open>wrapper.cld\<close>), and the entry is registered under the id.
\<close>

definition instantiate_layer ::
  "'r layer_p \<Rightarrow> nat \<Rightarrow> 'r world \<Rightarrow> (py_error + nat) \<times> 'r world" where
  "instantiate_layer p scope w =
     (if truthy (shared_weight_layer_id p) then
        (case cur_jax_context w of
           None \<Rightarrow> (Inl AssertionError, w)
         | Some jax_context \<Rightarrow>
            (let sid = the (shared_weight_layer_id p) in
             case lookup_shared_layer jax_context scope sid of
               Some pre_created \<Rightarrow>
                 if compatible_hparams (entry_hparams pre_created) p
                 then (Inr (entry_layer pre_created), w)
                 else (Inl AssertionError, w)
             | None \<Rightarrow>
                 (let wrapper = next_object w;
                      layer = next_object w + 1;
                      w1 = w\<lparr>next_object := next_object w + 2,
                             instantiated := instantiated w @ [layer]\<rparr>
                  in case set_shared_layer jax_context scope sid wrapper layer p of
                       Inl e \<Rightarrow> (Inl e, w1)
                     | Inr m \<Rightarrow> (Inr layer, w1\<lparr>cur_jax_context := Some m\<rparr>))))
      else
        (Inr (next_object w),
         w\<lparr>next_object := next_object w + 1,
           instantiated := instantiated w @ [next_object w]\<rparr>))"

section \<open>Copying base hyper-parameters from parent to child\<close>

text \<open>
  \<open>WeightInit\<close> and \<open>is_default_param_init\<close> (lines 468-478): the default initializer is
  recognised by its method \<open>xavier\<close> and by its scale being close to the signature
  1.000001. The scale is a Python float; it is a real number here, and the float test
  \<open>abs(p.scale - 1.000001) < 1e-7\<close>, which is decided in floating-point arithmetic, is the
  parameter \<open>close_to_default\<close>. The field \<open>method\<close> is \<open>init_method\<close>.
\<close>

record WeightInit =
  init_method :: string
  scale :: real




text \<open>
  The values of the base fields, as reading the attributes of a layer or of a config gives
  them.
\<close>

record base_hparams =
  dtype :: dtype
  fprop_dtype :: "dtype option"
  skip_lp_regularization :: "bool option"
  ici_mesh_shape :: "int list option"
  dcn_mesh_shape :: "int list option"
  mesh_axis_names :: "string list option"
  params_init :: WeightInit













section \<open>Building a config tree\<close>

text \<open>
  A config tree as \<open>pax_fiddle.build\<close> (pax_fiddle.py, lines 246-283) walks it: a leaf
  value, a container (list or tuple), or a \<open>fdl.Buildable\<close>. A Buildable is an object: it
  has an identity (the number), a callable (its name) and arguments in the order of
  \<open>__arguments__\<close>, each with its name, whether \<open>__argument_tags__\<close> has \<open>DoNotBuild\<close> for
  it, and its value. The same Buildable referenced from two places is the same node, with
  the same number, in both places.
\<close>

datatype cfg =
  Leaf string
| Seq "cfg list"
| Buildable nat string "(string \<times> bool \<times> cfg) list"

text \<open>
  What \<open>build\<close> returns: a leaf, a container, a config left unbuilt, or the object that the
  call \<open>callable(**kwargs)\<close> returned. The number of an \<open>Obj\<close> tells the objects apart: it
  counts the calls that have returned before.
\<close>

datatype obj =
  OLeaf string
| OSeq "obj list"
| Unbuilt cfg
| Obj nat string "(string \<times> obj) list"

text \<open>
  The exceptions of a build: \<open>tagging.TaggedValueNotFilledError\<close>, any other exception a
  callable raises (a subclass of \<open>Exception\<close>), and
  \<open>fdl.BuildError(buildable, path_from_config_root, original_error, args, kwargs)\<close>, whose
  \<open>args\<close> is always \<open>()\<close> here.
\<close>

datatype exn =
  TaggedValueNotFilledError
| Exception string
| BuildError cfg string exn "(string \<times> obj) list"

text \<open>
  Paths of the traversal: \<open>daglish.Attr\<close> for an argument of a Buildable, \<open>daglish.Index\<close>
  for an element of a container. \<open>daglish.path_str\<close> writes \<open>.name\<close> and \<open>[i]\<close>.
\<close>

datatype path_element = Attr string | Index nat

fun path_element_code :: "path_element \<Rightarrow> string" where
  "path_element_code (Attr n) = ''.'' @ n"
| "path_element_code (Index i) = ''['' @ str_nat i @ '']''"

definition path_str :: "path_element list \<Rightarrow> string" where
  "path_str path = concat (map path_element_code path)"

text \<open>
  The state of a \<open>daglish.MemoizedTraversal\<close> together with what the build has done so far:
  \<open>memo\<close> maps the identity of a Buildable to the result of its visit, \<open>fresh\<close> counts the
  objects constructed, and \<open>built\<close> lists the Buildables whose \<open>__build__\<close> has been called,
  in order.
\<close>

record build_state =
  memo :: "nat \<rightharpoonup> obj"
  fresh :: nat
  built :: "nat list"

text \<open>
  The callable of a Buildable is outside this code: \<open>ctor c kwargs\<close> tells whether the call
  of \<open>c\<close> with \<open>kwargs\<close> raises (\<open>Some e\<close>) or returns (\<open>None\<close>).

  \<open>build_value\<close> is the inner function \<open>_build(value, state)\<close> and \<open>call\<close> is
  \<open>state.call(sub_value, path_element)\<close> of the memoized traversal, which looks the identity
  of a Buildable up in the memo before visiting it and stores the result after;
  \<open>path\<close> is \<open>state.current_path\<close>. \<open>build_arguments\<close> is the loop over
  \<open>value.__arguments__.items()\<close>, and \<open>map_children\<close> is \<open>state.map_children\<close> on a
  container. The loop over the arguments is outside the \<open>try\<close>, so an exception of a
  sub-value passes through unchanged.
\<close>

function (sequential) build_value ::
    "(string \<Rightarrow> (string \<times> obj) list \<Rightarrow> exn option) \<Rightarrow> path_element list \<Rightarrow> cfg \<Rightarrow>
     build_state \<Rightarrow> (exn + obj) \<times> build_state"
  and call ::
    "(string \<Rightarrow> (string \<times> obj) list \<Rightarrow> exn option) \<Rightarrow> path_element list \<Rightarrow> cfg \<Rightarrow>
     build_state \<Rightarrow> (exn + obj) \<times> build_state"
  and build_arguments ::
    "(string \<Rightarrow> (string \<times> obj) list \<Rightarrow> exn option) \<Rightarrow> path_element list \<Rightarrow>
     (string \<times> bool \<times> cfg) list \<Rightarrow> build_state \<Rightarrow>
     (exn + (string \<times> obj) list) \<times> build_state"
  and map_children ::
    "(string \<Rightarrow> (string \<times> obj) list \<Rightarrow> exn option) \<Rightarrow> path_element list \<Rightarrow> nat \<Rightarrow>
     cfg list \<Rightarrow> build_state \<Rightarrow> (exn + obj list) \<times> build_state"
where
  "build_value ctor path (Leaf a) st = (Inr (OLeaf a), st)"
| "build_value ctor path (Seq vs) st =
     (case map_children ctor path 0 vs st of
        (Inl e, st') \<Rightarrow> (Inl e, st')
      | (Inr os, st') \<Rightarrow> (Inr (OSeq os), st'))"
| "build_value ctor path (Buildable i c args) st =
     (case build_arguments ctor path args st of
        (Inl e, st') \<Rightarrow> (Inl e, st')
      | (Inr arguments, st') \<Rightarrow>
         (case ctor c arguments of
            None \<Rightarrow>
              (Inr (Obj (fresh st') c arguments),
               st'\<lparr>fresh := fresh st' + 1, built := built st' @ [i]\<rparr>)
          | Some TaggedValueNotFilledError \<Rightarrow>
              (Inl TaggedValueNotFilledError, st'\<lparr>built := built st' @ [i]\<rparr>)
          | Some e \<Rightarrow>
              (Inl (BuildError (Buildable i c args) (''<root>'' @ path_str path) e arguments),
               st'\<lparr>built := built st' @ [i]\<rparr>)))"
| "call ctor path (Leaf a) st = build_value ctor path (Leaf a) st"
| "call ctor path (Seq vs) st = build_value ctor path (Seq vs) st"
| "call ctor path (Buildable i c args) st =
     (case memo st i of
        Some result \<Rightarrow> (Inr result, st)
      | None \<Rightarrow>
         (case build_value ctor path (Buildable i c args) st of
            (Inl e, st') \<Rightarrow> (Inl e, st')
          | (Inr result, st') \<Rightarrow> (Inr result, st'\<lparr>memo := (memo st')(i \<mapsto> result)\<rparr>)))"
| "build_arguments ctor path [] st = (Inr [], st)"
| "build_arguments ctor path ((key, do_not_build, sub_value) # args) st =
     (if do_not_build then
        (case build_arguments ctor path args st of
           (Inl e, st') \<Rightarrow> (Inl e, st')
         | (Inr arguments, st') \<Rightarrow> (Inr ((key, Unbuilt sub_value) # arguments), st'))
      else
        (case call ctor (path @ [Attr key]) sub_value st of
           (Inl e, st1) \<Rightarrow> (Inl e, st1)
         | (Inr r, st1) \<Rightarrow>
            (case build_arguments ctor path args st1 of
               (Inl e, st') \<Rightarrow> (Inl e, st')
             | (Inr arguments, st') \<Rightarrow> (Inr ((key, r) # arguments), st'))))"
| "map_children ctor path n [] st = (Inr [], st)"
| "map_children ctor path n (v # vs) st =
     (case call ctor (path @ [Index n]) v st of
        (Inl e, st1) \<Rightarrow> (Inl e, st1)
      | (Inr r, st1) \<Rightarrow>
         (case map_children ctor path (n + 1) vs st1 of
            (Inl e, st') \<Rightarrow> (Inl e, st')
          | (Inr rs, st') \<Rightarrow> (Inr (r # rs), st')))"
  by pat_completeness auto
termination
  by (relation "measure (\<lambda>x. case x of
        Inl (Inl (ctor, path, v, st)) \<Rightarrow> 2 * size v
      | Inl (Inr (ctor, path, v, st)) \<Rightarrow> 2 * size v + 1
      | Inr (Inl (ctor, path, args, st)) \<Rightarrow>
          2 * size_list (size_prod (\<lambda>_. 0) (size_prod (\<lambda>_. 0) size)) args
      | Inr (Inr (ctor, path, n, vs, st)) \<Rightarrow> 2 * size_list size vs)") auto

text \<open>
  \<open>build(buildable)\<close> calls \<open>_build\<close> on the root with a new traversal, whose memo is empty
  and whose path is the empty path.
\<close>

definition initial_state :: build_state where
  "initial_state = \<lparr>memo = Map.empty, fresh = 0, built = []\<rparr>"

definition build ::
  "(string \<Rightarrow> (string \<times> obj) list \<Rightarrow> exn option) \<Rightarrow> cfg \<Rightarrow> (exn + obj) \<times> build_state" where
  "build ctor buildable = build_value ctor [] buildable initial_state"

text \<open>
  The Buildables of a tree: all of them (\<open>buildables\<close>), and those that \<open>build\<close> visits,
  which are the ones reached without passing an argument tagged \<open>DoNotBuild\<close>
  (\<open>visited\<close>). \<open>ident\<close> is the identity of a Buildable. In a tree of Python objects two
  Buildables with the same identity are the same object: \<open>unique_ids\<close>.
\<close>

fun ident :: "cfg \<Rightarrow> nat" where
  "ident (Buildable i c args) = i"
| "ident v = 0"

fun buildables :: "cfg \<Rightarrow> cfg list"
  and buildables_args :: "(string \<times> bool \<times> cfg) list \<Rightarrow> cfg list"
  and buildables_list :: "cfg list \<Rightarrow> cfg list"
where
  "buildables (Leaf a) = []"
| "buildables (Seq vs) = buildables_list vs"
| "buildables (Buildable i c args) = Buildable i c args # buildables_args args"
| "buildables_args [] = []"
| "buildables_args ((key, do_not_build, v) # args) = buildables v @ buildables_args args"
| "buildables_list [] = []"
| "buildables_list (v # vs) = buildables v @ buildables_list vs"

fun visited :: "cfg \<Rightarrow> cfg list"
  and visited_args :: "(string \<times> bool \<times> cfg) list \<Rightarrow> cfg list"
  and visited_list :: "cfg list \<Rightarrow> cfg list"
where
  "visited (Leaf a) = []"
| "visited (Seq vs) = visited_list vs"
| "visited (Buildable i c args) = Buildable i c args # visited_args args"
| "visited_args [] = []"
| "visited_args ((key, do_not_build, v) # args) =
     (if do_not_build then [] else visited v) @ visited_args args"
| "visited_list [] = []"
| "visited_list (v # vs) = visited v @ visited_list vs"

definition unique_ids :: "cfg \<Rightarrow> bool" where
  "unique_ids tree =
     (\<forall>x \<in> set (buildables tree). \<forall>y \<in> set (buildables tree). ident x = ident y \<longrightarrow> x = y)"

text \<open>
  What the specification says a built object is, as a relation between a config tree and an
  object: a leaf is itself; a container is the container of its built elements; a
  Buildable is the object its callable returned for keyword arguments that have the names of
  the Buildable's arguments, in order, where an argument tagged \<open>DoNotBuild\<close> is the
  argument's value as it is (\<open>Unbuilt\<close>, also when the value is a Buildable) and any other
  argument is the built value.
\<close>

fun built_from :: "cfg \<Rightarrow> obj \<Rightarrow> bool"
  and built_from_args :: "(string \<times> bool \<times> cfg) list \<Rightarrow> (string \<times> obj) list \<Rightarrow> bool"
  and built_from_list :: "cfg list \<Rightarrow> obj list \<Rightarrow> bool"
where
  "built_from (Leaf a) r = (r = OLeaf a)"
| "built_from (Seq vs) r = (case r of OSeq rs \<Rightarrow> built_from_list vs rs | _ \<Rightarrow> False)"
| "built_from (Buildable i c args) r =
     (case r of Obj n c' kwargs \<Rightarrow> c' = c \<and> built_from_args args kwargs | _ \<Rightarrow> False)"
| "built_from_args [] kwargs = (kwargs = [])"
| "built_from_args ((key, do_not_build, v) # args) kwargs =
     (case kwargs of
        [] \<Rightarrow> False
      | (key', r) # kwargs' \<Rightarrow>
          key' = key \<and> (if do_not_build then r = Unbuilt v else built_from v r) \<and>
          built_from_args args kwargs')"
| "built_from_list [] rs = (rs = [])"
| "built_from_list (v # vs) rs =
     (case rs of [] \<Rightarrow> False | r # rs' \<Rightarrow> built_from v r \<and> built_from_list vs rs')"

text \<open>
  The same relation with sharing: \<open>shares m v r\<close> says that \<open>r\<close> is built from \<open>v\<close> and
  that, at every depth, each visited reference to a Buildable with identity \<open>i\<close> holds the
  one object \<open>m i\<close>.
\<close>

fun shares :: "(nat \<rightharpoonup> obj) \<Rightarrow> cfg \<Rightarrow> obj \<Rightarrow> bool"
  and shares_args ::
    "(nat \<rightharpoonup> obj) \<Rightarrow> (string \<times> bool \<times> cfg) list \<Rightarrow> (string \<times> obj) list \<Rightarrow> bool"
  and shares_list :: "(nat \<rightharpoonup> obj) \<Rightarrow> cfg list \<Rightarrow> obj list \<Rightarrow> bool"
where
  "shares m (Leaf a) r = (r = OLeaf a)"
| "shares m (Seq vs) r = (case r of OSeq rs \<Rightarrow> shares_list m vs rs | _ \<Rightarrow> False)"
| "shares m (Buildable i c args) r =
     (m i = Some r \<and>
      (case r of Obj n c' kwargs \<Rightarrow> c' = c \<and> shares_args m args kwargs | _ \<Rightarrow> False))"
| "shares_args m [] kwargs = (kwargs = [])"
| "shares_args m ((key, do_not_build, v) # args) kwargs =
     (case kwargs of
        [] \<Rightarrow> False
      | (key', r) # kwargs' \<Rightarrow>
          key' = key \<and> (if do_not_build then r = Unbuilt v else shares m v r) \<and>
          shares_args m args kwargs')"
| "shares_list m [] rs = (rs = [])"
| "shares_list m (v # vs) rs =
     (case rs of [] \<Rightarrow> False | r # rs' \<Rightarrow> shares m v r \<and> shares_list m vs rs')"

text \<open>
  The memo of a finished build, completed by the root: the traversal calls \<open>_build\<close> on the
  root directly, so the root's own result is not in the memo.
\<close>

definition memo_with_root :: "cfg \<Rightarrow> obj \<Rightarrow> build_state \<Rightarrow> nat \<rightharpoonup> obj" where
  "memo_with_root tree r st =
     (case tree of Buildable i c args \<Rightarrow> (memo st)(i \<mapsto> r) | _ \<Rightarrow> memo st)"

text \<open>
  The nodes that a path leads to from a node, through arguments that are not tagged
  \<open>DoNotBuild\<close> and through container elements.
\<close>

fun nodes_at :: "cfg \<Rightarrow> path_element list \<Rightarrow> cfg list"
  and nodes_at_args :: "(string \<times> bool \<times> cfg) list \<Rightarrow> string \<Rightarrow> path_element list \<Rightarrow> cfg list"
  and nodes_at_list :: "cfg list \<Rightarrow> nat \<Rightarrow> path_element list \<Rightarrow> cfg list"
where
  "nodes_at v [] = [v]"
| "nodes_at (Buildable i c args) (Attr key # p) = nodes_at_args args key p"
| "nodes_at (Seq vs) (Index n # p) = nodes_at_list vs n p"
| "nodes_at v (e # p) = []"
| "nodes_at_args [] key p = []"
| "nodes_at_args ((key', do_not_build, v) # args) key p =
     (if key' = key \<and> \<not> do_not_build then nodes_at v p else []) @ nodes_at_args args key p"
| "nodes_at_list [] n p = []"
| "nodes_at_list (v # vs) n p = (if n = 0 then nodes_at v p else nodes_at_list vs (n - 1) p)"

text \<open>
  The error that \<open>_build\<close> raises at a Buildable whose callable raised \<open>e\<close> for the keyword
  arguments \<open>kwargs\<close>, with \<open>path\<close> the path from the root to the Buildable.
\<close>

definition raised_at ::
  "cfg \<Rightarrow> path_element list \<Rightarrow> exn \<Rightarrow> (string \<times> obj) list \<Rightarrow> exn" where
  "raised_at node path e kwargs =
     (if e = TaggedValueNotFilledError then TaggedValueNotFilledError
      else BuildError node (''<root>'' @ path_str path) e kwargs)"

text \<open>
  The invariant of the memoized traversal over a tree whose Buildables are \<open>U\<close>: every
  entry of the memo is the object built, with sharing, from the Buildable of that identity;
  the Buildables built so far are exactly those in the memo, each built once. \<open>visit_post\<close>
  is what one visit of \<open>v\<close> adds: the memo only grows, it grows by the Buildables visited
  under \<open>v\<close>, and the result is \<open>v\<close> built with sharing.
\<close>

definition same_object :: "cfg set \<Rightarrow> bool" where
  "same_object U =
     (\<forall>i c a c' a'. Buildable i c a \<in> U \<longrightarrow> Buildable i c' a' \<in> U \<longrightarrow> c = c' \<and> a = a')"

definition memo_ok :: "cfg set \<Rightarrow> build_state \<Rightarrow> bool" where
  "memo_ok U st =
     ((\<forall>j r. memo st j = Some r \<longrightarrow>
         (\<exists>c a. Buildable j c a \<in> U \<and> shares (memo st) (Buildable j c a) r)) \<and>
      set (built st) = dom (memo st) \<and> distinct (built st))"

definition visit_post ::
  "cfg set \<Rightarrow> cfg list \<Rightarrow> build_state \<Rightarrow> build_state \<Rightarrow> bool" where
  "visit_post U nodes st st' =
     (memo_ok U st' \<and> memo st \<subseteq>\<^sub>m memo st' \<and>
      dom (memo st') = dom (memo st) \<union> ident ` set nodes)"

text \<open>
  What a finished build says about the calls it made: every object it constructed is the
  result of a call that returned. \<open>called_ok\<close> holds of such an object, and \<open>memo_called\<close>
  holds when every entry of the memo is one.
\<close>

definition called_ok :: "(string \<Rightarrow> (string \<times> obj) list \<Rightarrow> exn option) \<Rightarrow> obj \<Rightarrow> bool" where
  "called_ok ctor r = (case r of Obj n c kwargs \<Rightarrow> ctor c kwargs = None | _ \<Rightarrow> True)"

definition memo_called ::
  "(string \<Rightarrow> (string \<times> obj) list \<Rightarrow> exn option) \<Rightarrow> build_state \<Rightarrow> bool" where
  "memo_called ctor st = (\<forall>j r. memo st j = Some r \<longrightarrow> called_ok ctor r)"

section \<open>Properties of the fan computation\<close>

lemma mul_axes_prefix:
  "n \<le> length shape \<Longrightarrow>
   mul_axes shape (map int [0 ..< n]) acc = Inr (acc * prod_list (take n shape))"
proof (induction n arbitrary: acc)
  case 0
  then show ?case by simp
next
  case (Suc n)
  have app: "\<And>xs ys a. mul_axes shape (xs @ ys) a =
      (case mul_axes shape xs a of Inl e \<Rightarrow> Inl e | Inr b \<Rightarrow> mul_axes shape ys b)"
  proof -
    fix xs ys a
    show "mul_axes shape (xs @ ys) a =
      (case mul_axes shape xs a of Inl e \<Rightarrow> Inl e | Inr b \<Rightarrow> mul_axes shape ys b)"
      by (induction xs arbitrary: a) (auto split: sum.splits)
  qed
  from Suc.prems have n: "n < length shape" by simp
  then have idx: "py_index shape (int n) = Inr (shape ! n)"
    by (simp add: py_index_def)
  have "mul_axes shape (map int [0 ..< Suc n]) acc =
        mul_axes shape (map int [0 ..< n] @ [int n]) acc" by simp
  also have "\<dots> = Inr (acc * prod_list (take n shape) * shape ! n)"
    using Suc.IH [of acc] n by (simp only: app) (simp add: idx)
  also have "\<dots> = Inr (acc * prod_list (take (Suc n) shape))"
    using n by (simp add: take_Suc_conv_app_nth mult.assoc)
  finally show ?case .
qed

text \<open>
  C6, as the code has it. With the default fan axes: the empty shape gives no fan values at
  all (the first test \<open>not shape\<close> returns \<open>(None, None)\<close>, so the branch returning
  \<open>(1, 1)\<close> is never reached); a shape \<open>(d,)\<close> gives \<open>(d, d)\<close>; a shape of rank at least 2
  gives \<open>fan_in = shape[-2] * r\<close> and \<open>fan_out = shape[-1] * r\<close>, where \<open>r\<close> is the product
  of all the leading axes \<open>shape[:-2]\<close>.
\<close>

theorem get_fan_in_fan_out_default:
  "get_fan_in_fan_out [] None None = Inr (None, None) \<and>
   get_fan_in_fan_out [d] None None = Inr (Some d, Some d) \<and>
   (2 \<le> length shape \<longrightarrow>
      get_fan_in_fan_out shape None None =
        Inr (Some (shape ! (length shape - 2) * prod_list (take (length shape - 2) shape)),
             Some (shape ! (length shape - 1) * prod_list (take (length shape - 2) shape))))"
proof (intro conjI impI)
  show "get_fan_in_fan_out [] None None = Inr (None, None)"
    by (simp add: get_fan_in_fan_out_def)
  show "get_fan_in_fan_out [d] None None = Inr (Some d, Some d)"
    by (simp add: get_fan_in_fan_out_def)
next
  assume len: "2 \<le> length shape"
  then have ne: "shape \<noteq> []" by auto
  have rf: "mul_axes shape (map int [0 ..< length shape - 2]) 1 =
            Inr (prod_list (take (length shape - 2) shape))"
    using mul_axes_prefix [of "length shape - 2" shape 1] by simp
  have i2: "py_index shape (- 2) = Inr (shape ! (length shape - 2))"
    using len ne by (simp add: py_index_def nat_diff_distrib')
  have i1: "py_index shape (- 1) = Inr (shape ! (length shape - 1))"
    using len ne by (simp add: py_index_def nat_diff_distrib')
  show "get_fan_in_fan_out shape None None =
        Inr (Some (shape ! (length shape - 2) * prod_list (take (length shape - 2) shape)),
             Some (shape ! (length shape - 1) * prod_list (take (length shape - 2) shape)))"
    using len ne by (simp add: get_fan_in_fan_out_def rf i1 i2)
qed

theorem get_fan_in_fan_out_default_witness:
  "get_fan_in_fan_out [4, 3] None None = Inr (Some 4, Some 3) \<and>
   get_fan_in_fan_out [5] None None = Inr (Some 5, Some 5) \<and>
   get_fan_in_fan_out [2, 3, 4, 5] None None = Inr (Some 24, Some 30)"
  using get_fan_in_fan_out_default [of 5 "[4, 3]"]
        get_fan_in_fan_out_default [of 5 "[2, 3, 4, 5]"]
  by simp

theorem get_fan_in_fan_out_scalar_counterexample:
  "get_fan_in_fan_out [] None None \<noteq> Inr (Some 1, Some 1)"
  by (simp add: get_fan_in_fan_out_def)

section \<open>Summary keys: suffix and parse\<close>

lemma endswith_append_short:
  "length b \<le> length a \<Longrightarrow> endswith (s @ a) b = endswith a b"
  by (simp add: endswith_def)

lemma endswith_last:
  assumes "endswith k b" and "b \<noteq> []"
  shows "last k = last b"
proof -
  from assms have "drop (length k - length b) k = b"
    by (simp add: endswith_def)
  then show ?thesis
    using assms(2) by (metis last_drop not_less drop_eq_Nil)
qed

lemma endswith_append_last:
  "a \<noteq> [] \<Longrightarrow> b \<noteq> [] \<Longrightarrow> last a \<noteq> last b \<Longrightarrow> \<not> endswith (s @ a) b"
  using endswith_last [of "s @ a" b] by auto

lemma find_suffix:
  "find (\<lambda>t'. endswith (s @ get_summary_type_suffix t) (''_'' @ name_lower t'))
     all_summary_types = Some (get_summary_base_type t)"
  by (cases t)
     (simp_all add: get_summary_type_suffix_def all_summary_types_def
        endswith_append_short endswith_append_last, simp_all add: endswith_def)

text \<open>
  C10. For every summary type \<open>t\<close> and every base name \<open>s\<close>, parsing the key
  \<open>s + get_summary_type_suffix(t)\<close> gives the base type of \<open>t\<close> (an aggregate type resolves to
  its base kind) and trimming it gives back \<open>s\<close>. The six base suffixes end differently or
  have equal length, so the first match in iteration order is the suffix that was appended;
  this needs no condition on \<open>s\<close>, and so holds in particular for every \<open>s\<close> that does not
  itself end in a type suffix.
\<close>

theorem summary_key_roundtrip:
  "get_summary_type_from_key (s @ get_summary_type_suffix t) = Inr (get_summary_base_type t) \<and>
   trim_summary_type_from_key (s @ get_summary_type_suffix t) = Inr s"
proof -
  have d: "drop_last (s @ get_summary_type_suffix t)
             (length (''_'' @ name_lower (get_summary_base_type t))) = s"
    by (simp add: drop_last_def get_summary_type_suffix_def)
  show ?thesis
    unfolding get_summary_type_from_key_def trim_summary_type_from_key_def
      find_suffix option.case d
    by simp
qed

section \<open>Summary keys: uniqueness\<close>

lemma str_nat_1: "str_nat (Suc 0) = ''1''"
  by (simp add: str_nat.simps digit_char_def)

text \<open>
  The scan always ends: the decimal strings of different numbers differ, so the candidate
  names are pairwise different and only finitely many of them are keys. Both \<open>add_summary\<close>
  methods therefore return.
\<close>

lemma digit_char_inj:
  "a < 10 \<Longrightarrow> b < 10 \<Longrightarrow> digit_char a = digit_char b \<Longrightarrow> a = b"
proof -
  assume a: "a < 10" and b: "b < 10" and e: "digit_char a = digit_char b"
  have ca: "a \<in> {0, 1, 2, 3, 4, 5, 6, 7, 8, 9}" using a by auto
  have cb: "b \<in> {0, 1, 2, 3, 4, 5, 6, 7, 8, 9}" using b by auto
  from ca cb e show ?thesis
    by (auto simp: digit_char_def)
qed

lemma str_nat_not_Nil: "str_nat n \<noteq> []"
  by (subst str_nat.simps) simp

lemma str_nat_length: "(length (str_nat n) = 1) = (n < 10)"
proof (cases "n < 10")
  case True
  then show ?thesis by (subst str_nat.simps) simp
next
  case False
  have "length (str_nat (n div 10)) \<ge> 1"
    using str_nat_not_Nil [of "n div 10"] by (cases "str_nat (n div 10)") auto
  with False show ?thesis by (subst str_nat.simps) (simp add: str_nat_not_Nil)
qed

lemma str_nat_inj: "str_nat a = str_nat b \<Longrightarrow> a = b"
proof (induction a arbitrary: b rule: str_nat.induct)
  case (1 n)
  show ?case
  proof (cases "n < 10")
    case True
    with "1.prems" have "length (str_nat b) = 1" using str_nat_length [of n] by simp
    then have b: "b < 10" using str_nat_length [of b] by simp
    from "1.prems" True b have "digit_char n = digit_char b"
      by (simp add: str_nat.simps)
    with True b show ?thesis by (rule digit_char_inj)
  next
    case False
    with "1.prems" have "length (str_nat b) \<noteq> 1" using str_nat_length [of n] by simp
    then have b: "\<not> b < 10" using str_nat_length [of b] by simp
    have n: "str_nat n = str_nat (n div 10) @ [digit_char (n mod 10)]"
      using False by (subst str_nat.simps) simp
    have bb: "str_nat b = str_nat (b div 10) @ [digit_char (b mod 10)]"
      using b by (subst str_nat.simps) simp
    from "1.prems" n bb have e: "str_nat (n div 10) = str_nat (b div 10)"
      and d: "digit_char (n mod 10) = digit_char (b mod 10)" by simp_all
    from "1.IH" [OF False e] have q: "n div 10 = b div 10" .
    have "n mod 10 = b mod 10" using d by (intro digit_char_inj) simp_all
    with q show ?thesis by (metis div_mult_mod_eq)
  qed
qed

lemma scan_free_name_returns:
  "\<exists>r. scan_free_name keys base sfx n full_name = Some r \<and> r \<notin> set keys"
proof -
  let ?name = "\<lambda>j. base @ str_nat j @ sfx"
  let ?S = "\<lambda>n. {j. n < j \<and> ?name j \<in> set keys}"
  have inj: "inj ?name" by (auto simp: inj_on_def dest: str_nat_inj)
  have fin: "\<And>n. finite (?S n)"
  proof -
    fix n
    have "?S n \<subseteq> ?name -` set keys" by auto
    moreover have "finite (?name -` set keys)" using inj by (intro finite_vimageI) simp_all
    ultimately show "finite (?S n)" by (rule finite_subset)
  qed
  show ?thesis
  proof (induction "card (?S n)" arbitrary: n full_name rule: less_induct)
    case less
    show ?case
    proof (cases "full_name \<in> set keys")
      case False
      then show ?thesis by (subst scan_free_name.simps) simp
    next
      case True
      show ?thesis
      proof (cases "?name (n + 1) \<in> set keys")
        case False
        have "scan_free_name keys base sfx n full_name =
                scan_free_name keys base sfx (n + 1) (?name (n + 1))"
          using True by (subst scan_free_name.simps) simp
        also have "\<dots> = Some (?name (n + 1))"
          using False by (subst scan_free_name.simps) simp
        finally show ?thesis using False by simp
      next
        case in_keys: True
        have "n + 1 \<in> ?S n" using in_keys by simp
        moreover have "n + 1 \<notin> ?S (n + 1)" by simp
        moreover have "?S (n + 1) \<subseteq> ?S n" by auto
        ultimately have "?S (n + 1) \<subset> ?S n" by blast
        then have "card (?S (n + 1)) < card (?S n)"
          using fin [of n] by (rule psubset_card_mono [rotated])
        from less [OF this, of "?name (n + 1)"] obtain r where
          r: "scan_free_name keys base sfx (n + 1) (?name (n + 1)) = Some r" "r \<notin> set keys"
          by blast
        have "scan_free_name keys base sfx n full_name =
                scan_free_name keys base sfx (n + 1) (?name (n + 1))"
          using True by (subst scan_free_name.simps) simp
        with r show ?thesis by simp
      qed
    qed
  qed
qed

lemma add_summary_returns:
  "SummaryDict_add_summary dict summary_name tensor summary_type \<noteq> None"
  "BaseLayer_add_summary context_verbosity layer summary_name tensor summary_type verbosity \<noteq> None"
proof -
  obtain r where "scan_free_name (map fst dict) summary_name (get_summary_type_suffix summary_type) 0
      (summary_name @ get_summary_type_suffix summary_type) = Some r"
    using scan_free_name_returns by blast
  then show "SummaryDict_add_summary dict summary_name tensor summary_type \<noteq> None"
    by (simp add: SummaryDict_add_summary_def Let_def)
  obtain r' where "scan_free_name (map fst (summaries layer)) summary_name [] 0 summary_name = Some r'"
    using scan_free_name_returns by blast
  then show "BaseLayer_add_summary context_verbosity layer summary_name tensor summary_type verbosity
      \<noteq> None"
    by (simp add: BaseLayer_add_summary_def)
qed

text \<open>
  The summary dict of the context does what the rule says: the scan tests the fully
  suffixed name, so a second scalar summary named \<open>loss\<close> is stored under \<open>loss1_scalar\<close>.
\<close>

lemma SummaryDict_add_summary_twice:
  "SummaryDict_add_summary [] ''loss'' t1 SCALAR = Some (Inr [(''loss_scalar'', t1)]) \<and>
   SummaryDict_add_summary [(''loss_scalar'', t1)] ''loss'' t2 SCALAR =
     Some (Inr [(''loss_scalar'', t1), (''loss1_scalar'', t2)])"
  by (simp add: SummaryDict_add_summary_def get_summary_type_suffix_def Let_def
      scan_free_name.simps str_nat_1)

text \<open>
  C7 at a layer whose \<open>summaries\<close> collection is empty and mutable, with no context active:
  two calls of \<open>BaseLayer.add_summary\<close> with the name \<open>loss\<close> and type \<open>SCALAR\<close>. The scan
  looks for the key \<open>loss\<close>, which is never stored, so both calls write the key
  \<open>loss_scalar\<close> and the second value replaces the first; no key \<open>loss1_scalar\<close> appears.
\<close>

theorem BaseLayer_add_summary_twice:
  "BaseLayer_add_summary None \<lparr>summaries = [], summaries_mutable = True\<rparr> ''loss'' t1 SCALAR 2
     = Some (Inr \<lparr>summaries = [(''loss_scalar'', t1)], summaries_mutable = True\<rparr>) \<and>
   BaseLayer_add_summary None \<lparr>summaries = [(''loss_scalar'', t1)], summaries_mutable = True\<rparr>
       ''loss'' t2 SCALAR 2
     = Some (Inr \<lparr>summaries = [(''loss_scalar'', t2)], summaries_mutable = True\<rparr>)"
  by (simp add: BaseLayer_add_summary_def get_summary_type_suffix_def Let_def
      scan_free_name.simps sow_summaries_def)

section \<open>The ambient context stack\<close>

lemma JaxContext_exit_enter:
  "JaxContext_exit self (JaxContext_enter self stack) = Inr stack"
  by (simp add: JaxContext_exit_def JaxContext_enter_def)

lemma run_keeps_stack: "snd (run c stack) = stack"
proof (induction c arbitrary: stack)
  case (Then a b)
  have "snd (run a stack) = stack" by (rule Then.IH(1))
  then obtain r where a: "run a stack = (r, stack)" by (cases "run a stack") simp
  show ?case using Then.IH(2) [of stack] by (cases r) (simp_all add: a)
next
  case (With self body)
  have "snd (run body (JaxContext_enter self stack)) = JaxContext_enter self stack"
    by (rule With.IH)
  then obtain r where "run body (JaxContext_enter self stack) = (r, JaxContext_enter self stack)"
    by (cases "run body (JaxContext_enter self stack)") simp
  then show ?case by (simp add: JaxContext_exit_enter)
qed simp_all

text \<open>
  C9. A frame entered by \<open>with\<close> is popped on exit whether the body returns (\<open>None\<close>) or
  raises (\<open>Some e\<close>): after the \<open>with\<close> the stack is the stack before it, so \<open>has_context\<close>
  and \<open>top\<close> read as before; the body's outcome is passed on, and inside the body the frame
  is the top of the stack.
\<close>

theorem scoped_context_restores_stack:
  "snd (run (With self body) stack) = stack \<and>
   has_context (snd (run (With self body) stack)) = has_context stack \<and>
   JaxContext_top (snd (run (With self body) stack)) = JaxContext_top stack \<and>
   fst (run (With self body) stack) = fst (run body (JaxContext_enter self stack)) \<and>
   JaxContext_top (JaxContext_enter self stack) = Some self"
proof -
  have s: "snd (run (With self body) stack) = stack" by (rule run_keeps_stack)
  have "snd (run body (JaxContext_enter self stack)) = JaxContext_enter self stack"
    by (rule run_keeps_stack)
  then obtain r where "run body (JaxContext_enter self stack) = (r, JaxContext_enter self stack)"
    by (cases "run body (JaxContext_enter self stack)") simp
  then have f: "fst (run (With self body) stack) = fst (run body (JaxContext_enter self stack))"
    by (simp add: JaxContext_exit_enter)
  have t: "JaxContext_top (JaxContext_enter self stack) = Some self"
    by (simp add: JaxContext_top_def JaxContext_enter_def)
  show ?thesis using s f t by simp
qed

section \<open>Reading a trainable variable through theta\<close>

text \<open>
  C8, as the code has it. Reading \<open>theta.k\<close> runs \<open>setup\<close> if it has not run; it raises
  \<open>ValueError\<close> when the layer has no variable \<open>k\<close> in \<open>params\<close>; for a variable created with
  its hparams recorded, it returns the stored tensor as it is when \<open>fprop_dtype\<close> is bfloat16
  and the variable is tagged \<open>_disallow_bfloat16_conversion\<close>, and otherwise the tensor with
  contents and shape kept and, if its dtype is floating, with dtype \<open>fprop_dtype\<close>; a tensor
  that is not floating is returned as stored.
\<close>

theorem Theta_getattr_spec:
  "snd (Theta_getattr setup layer0 k) = try_setup setup layer0 \<and>
   setup_called (try_setup setup layer0) \<and>
   (setup_called layer0 \<longrightarrow> try_setup setup layer0 = layer0) \<and>
   (params (try_setup setup layer0) k = None \<longrightarrow>
      fst (Theta_getattr setup layer0 k) = Inl ValueError) \<and>
   (\<forall>variable collections.
      params (try_setup setup layer0) k = Some variable \<and>
      weight_hparams (try_setup setup layer0) k = Some collections \<longrightarrow>
      (\<exists>r. fst (Theta_getattr setup layer0 k) = Inr r \<and>
           t_data r = t_data variable \<and> t_shape r = t_shape variable \<and>
           (if layer_fprop_dtype (try_setup setup layer0) = BFloat16 \<and>
               DISALLOW_BFLOAT16_CONVERSION \<in> set collections
            then r = variable
            else if is_floating (t_dtype variable)
            then t_dtype r = layer_fprop_dtype (try_setup setup layer0)
            else r = variable)))"
proof -
  have a: "snd (Theta_getattr setup layer0 k) = try_setup setup layer0"
    by (simp add: Theta_getattr_def Let_def split: option.splits)
  have b: "setup_called (try_setup setup layer0)"
    by (simp add: try_setup_def)
  have c: "setup_called layer0 \<longrightarrow> try_setup setup layer0 = layer0"
    by (simp add: try_setup_def)
  have d: "params (try_setup setup layer0) k = None \<longrightarrow>
      fst (Theta_getattr setup layer0 k) = Inl ValueError"
    by (simp add: Theta_getattr_def Let_def)
  have e: "\<forall>variable collections.
      params (try_setup setup layer0) k = Some variable \<and>
      weight_hparams (try_setup setup layer0) k = Some collections \<longrightarrow>
      (\<exists>r. fst (Theta_getattr setup layer0 k) = Inr r \<and>
           t_data r = t_data variable \<and> t_shape r = t_shape variable \<and>
           (if layer_fprop_dtype (try_setup setup layer0) = BFloat16 \<and>
               DISALLOW_BFLOAT16_CONVERSION \<in> set collections
            then r = variable
            else if is_floating (t_dtype variable)
            then t_dtype r = layer_fprop_dtype (try_setup setup layer0)
            else r = variable))"
    by (auto simp add: Theta_getattr_def Let_def var_disallow_bfloat16_conversion_def
        cast_to_fprop_dtype_def astype_def)
  show ?thesis using a b c d e by blast
qed

theorem Theta_getattr_spec_witness:
  "fst (Theta_getattr (\<lambda>l. l)
         \<lparr>setup_called = True, layer_fprop_dtype = BFloat16,
          params = [''w'' \<mapsto> \<lparr>t_dtype = Float32, t_shape = [4, 3], t_data = (7::nat)\<rparr>],
          weight_hparams = [''w'' \<mapsto> []]\<rparr> ''w'')
     = Inr \<lparr>t_dtype = BFloat16, t_shape = [4, 3], t_data = 7\<rparr> \<and>
   fst (Theta_getattr (\<lambda>l. l)
         \<lparr>setup_called = True, layer_fprop_dtype = BFloat16,
          params = [''w'' \<mapsto> \<lparr>t_dtype = Float32, t_shape = [4, 3], t_data = (7::nat)\<rparr>],
          weight_hparams = [''w'' \<mapsto> []]\<rparr> ''b'')
     = Inl ValueError"
  using Theta_getattr_spec [of "\<lambda>l. l"
         "\<lparr>setup_called = True, layer_fprop_dtype = BFloat16,
          params = [''w'' \<mapsto> \<lparr>t_dtype = Float32, t_shape = [4, 3], t_data = (7::nat)\<rparr>],
          weight_hparams = [''w'' \<mapsto> []]\<rparr>" "''w''"]
        Theta_getattr_spec [of "\<lambda>l. l"
         "\<lparr>setup_called = True, layer_fprop_dtype = BFloat16,
          params = [''w'' \<mapsto> \<lparr>t_dtype = Float32, t_shape = [4, 3], t_data = (7::nat)\<rparr>],
          weight_hparams = [''w'' \<mapsto> []]\<rparr>" "''b''"]
  by (simp add: try_setup_def Theta_getattr_def cast_to_fprop_dtype_def astype_def
      var_disallow_bfloat16_conversion_def)

text \<open>
  The tag does not keep a variable from being cast when \<open>fprop_dtype\<close> is not bfloat16: a
  float32 variable tagged \<open>_disallow_bfloat16_conversion\<close> on a layer whose \<open>fprop_dtype\<close> is
  float16 is returned as float16.
\<close>

theorem Theta_getattr_tagged_counterexample:
  "fst (Theta_getattr (\<lambda>l. l)
         \<lparr>setup_called = True, layer_fprop_dtype = Float16,
          params = [''w'' \<mapsto> \<lparr>t_dtype = Float32, t_shape = [4, 3], t_data = (7::nat)\<rparr>],
          weight_hparams = [''w'' \<mapsto> [DISALLOW_BFLOAT16_CONVERSION]]\<rparr> ''w'')
     = Inr \<lparr>t_dtype = Float16, t_shape = [4, 3], t_data = 7\<rparr> \<and>
   \<lparr>t_dtype = Float16, t_shape = [4, 3], t_data = (7::nat)\<rparr>
     \<noteq> \<lparr>t_dtype = Float32, t_shape = [4, 3], t_data = 7\<rparr>"
  by (simp add: try_setup_def Theta_getattr_def cast_to_fprop_dtype_def astype_def
      var_disallow_bfloat16_conversion_def)

section \<open>The shared-layer cache\<close>

lemma compatible_hparams_trans:
  "compatible_hparams a b \<Longrightarrow> compatible_hparams a c = compatible_hparams b c"
  by (simp add: compatible_hparams_def)

lemma compatible_hparams_refl: "compatible_hparams a a"
  by (simp add: compatible_hparams_def)

text \<open>
  C2, as the code has it. Let a layer config with a shared-weight id that is neither
  \<open>None\<close> nor the empty string be instantiated under a root scope. A second config with the
  same id under the same scope then yields the same layer object and constructs nothing,
  provided its hparams are compatible with the first (equal after clearing \<open>name\<close>);
  otherwise the assertion fails. Registering the same (scope, id) again with
  \<open>set_shared_layer\<close> fails with an assertion.
\<close>

theorem shared_layer_reused:
  assumes "shared_weight_layer_id p1 = Some sid"
    and "shared_weight_layer_id p2 = Some sid"
    and "sid \<noteq> []"
    and "instantiate_layer p1 scope w = (Inr layer, w1)"
  shows "instantiate_layer p2 scope w1 =
           (if compatible_hparams p1 p2 then (Inr layer, w1) else (Inl AssertionError, w1)) \<and>
         (\<exists>m. cur_jax_context w1 = Some m \<and>
              set_shared_layer m scope sid wrapper cld hp = Inl AssertionError)"
proof -
  from assms(1,3) have t1: "truthy (shared_weight_layer_id p1)" by (simp add: truthy_def)
  from assms(2,3) have t2: "truthy (shared_weight_layer_id p2)" by (simp add: truthy_def)
  from assms(4) t1 obtain m0 where m0: "cur_jax_context w = Some m0"
    by (cases "cur_jax_context w") (auto simp: instantiate_layer_def)
  show ?thesis
  proof (cases "lookup_shared_layer m0 scope sid")
    case (Some e)
    with assms(4) t1 m0 assms(1)
    have c: "compatible_hparams (entry_hparams e) p1" and l: "layer = entry_layer e" and w: "w1 = w"
      by (auto simp: instantiate_layer_def Let_def split: if_splits)
    have "compatible_hparams (entry_hparams e) p2 = compatible_hparams p1 p2"
      using c by (rule compatible_hparams_trans)
    then show ?thesis
      using Some t2 m0 assms(2) l w
      by (auto simp: instantiate_layer_def Let_def set_shared_layer_def)
  next
    case None
    with assms(4) t1 m0 assms(1)
    have l: "layer = next_object w + 1"
      and w: "w1 = w\<lparr>next_object := next_object w + 2,
                     instantiated := instantiated w @ [next_object w + 1],
                     cur_jax_context := Some (m0((scope, sid) \<mapsto>
                        \<lparr>entry_layer = next_object w + 1, entry_hparams = p1,
                         entry_wrapper = next_object w\<rparr>))\<rparr>"
      by (auto simp: instantiate_layer_def Let_def set_shared_layer_def)
    show ?thesis
      using t2 assms(2)
      by (auto simp: instantiate_layer_def Let_def set_shared_layer_def
          lookup_shared_layer_def l w)
  qed
qed

theorem shared_layer_reused_witness:
  "instantiate_layer \<lparr>name = ''b'', shared_weight_layer_id = Some ''emb'', rest = (5::nat)\<rparr> 0
     (snd (instantiate_layer \<lparr>name = ''a'', shared_weight_layer_id = Some ''emb'', rest = 5\<rparr> 0
            \<lparr>cur_jax_context = Some Map.empty, next_object = 0, instantiated = []\<rparr>))
   = (Inr 1,
      snd (instantiate_layer \<lparr>name = ''a'', shared_weight_layer_id = Some ''emb'', rest = 5\<rparr> 0
            \<lparr>cur_jax_context = Some Map.empty, next_object = 0, instantiated = []\<rparr>))"
proof -
  have f: "fst (instantiate_layer \<lparr>name = ''a'', shared_weight_layer_id = Some ''emb'', rest = (5::nat)\<rparr> 0
            \<lparr>cur_jax_context = Some Map.empty, next_object = 0, instantiated = []\<rparr>) = Inr 1"
    by (simp add: instantiate_layer_def truthy_def lookup_shared_layer_def set_shared_layer_def)
  have c: "compatible_hparams \<lparr>name = ''a'', shared_weight_layer_id = Some ''emb'', rest = (5::nat)\<rparr>
             \<lparr>name = ''b'', shared_weight_layer_id = Some ''emb'', rest = 5\<rparr>"
    by (simp add: compatible_hparams_def)
  show ?thesis
    using shared_layer_reused [of "\<lparr>name = ''a'', shared_weight_layer_id = Some ''emb'', rest = (5::nat)\<rparr>"
        "''emb''" "\<lparr>name = ''b'', shared_weight_layer_id = Some ''emb'', rest = 5\<rparr>" 0
        "\<lparr>cur_jax_context = Some Map.empty, next_object = 0, instantiated = []\<rparr>" 1
        "snd (instantiate_layer \<lparr>name = ''a'', shared_weight_layer_id = Some ''emb'', rest = 5\<rparr> 0
            \<lparr>cur_jax_context = Some Map.empty, next_object = 0, instantiated = []\<rparr>)"]
      f c
    by (simp add: prod_eq_iff)
qed

text \<open>
  The empty string is a shared-weight id that is not \<open>None\<close>, and Python reads it as false:
  two configs carrying it are instantiated as two different layers.
\<close>

theorem shared_layer_empty_id_counterexample:
  "fst (instantiate_layer \<lparr>name = ''a'', shared_weight_layer_id = Some [], rest = (5::nat)\<rparr> 0
          \<lparr>cur_jax_context = Some Map.empty, next_object = 0, instantiated = []\<rparr>) = Inr 0 \<and>
   fst (instantiate_layer \<lparr>name = ''b'', shared_weight_layer_id = Some [], rest = (5::nat)\<rparr> 0
          (snd (instantiate_layer \<lparr>name = ''a'', shared_weight_layer_id = Some [], rest = 5\<rparr> 0
             \<lparr>cur_jax_context = Some Map.empty, next_object = 0, instantiated = []\<rparr>))) = Inr 1 \<and>
   instantiated
     (snd (instantiate_layer \<lparr>name = ''b'', shared_weight_layer_id = Some [], rest = (5::nat)\<rparr> 0
          (snd (instantiate_layer \<lparr>name = ''a'', shared_weight_layer_id = Some [], rest = 5\<rparr> 0
             \<lparr>cur_jax_context = Some Map.empty, next_object = 0, instantiated = []\<rparr>)))) = [0, 1]"
  by (simp add: instantiate_layer_def truthy_def)

section \<open>Copying base hyper-parameters from parent to child\<close>


















section \<open>Building a config tree: errors\<close>

lemma build_error:
  "build_value ctor path v st = (Inl e, st') \<Longrightarrow>
     \<exists>p i c a kw e0. Buildable i c a \<in> set (nodes_at v p) \<and> ctor c kw = Some e0 \<and>
        e = raised_at (Buildable i c a) (path @ p) e0 kw"
  "call ctor path v st = (Inl e, st') \<Longrightarrow>
     \<exists>p i c a kw e0. Buildable i c a \<in> set (nodes_at v p) \<and> ctor c kw = Some e0 \<and>
        e = raised_at (Buildable i c a) (path @ p) e0 kw"
  "build_arguments ctor path args st = (Inl e, st') \<Longrightarrow>
     \<exists>key p i c a kw e0. Buildable i c a \<in> set (nodes_at_args args key p) \<and>
        ctor c kw = Some e0 \<and>
        e = raised_at (Buildable i c a) (path @ Attr key # p) e0 kw"
  "map_children ctor path n vs st = (Inl e, st') \<Longrightarrow>
     \<exists>k p i c a kw e0. Buildable i c a \<in> set (nodes_at_list vs k p) \<and>
        ctor c kw = Some e0 \<and>
        e = raised_at (Buildable i c a) (path @ Index (n + k) # p) e0 kw"
proof (induction ctor path v st and ctor path v st and ctor path args st and ctor path n vs st
       arbitrary: e st' and e st' and e st' and e st'
       rule: build_value_call_build_arguments_map_children.induct)
  case (1 ctor path a st)
  then show ?case by simp
next
  case (2 ctor path vs st)
  from "2.prems" obtain st1 where m: "map_children ctor path 0 vs st = (Inl e, st1)"
    by (auto split: prod.splits sum.splits)
  from "2.IH" [OF m] obtain k p i c a kw e0 where
    h: "Buildable i c a \<in> set (nodes_at_list vs k p)" "ctor c kw = Some e0"
       "e = raised_at (Buildable i c a) (path @ Index (0 + k) # p) e0 kw"
    by blast
  have "Buildable i c a \<in> set (nodes_at (Seq vs) (Index k # p))" using h(1) by simp
  then show ?case using h(2,3) by (metis add_0)
next
  case (3 ctor path i c args st)
  show ?case
  proof (cases "build_arguments ctor path args st")
    case (Pair res st1)
    show ?thesis
    proof (cases res)
      case (Inl e1)
      with Pair "3.prems" have ee: "e1 = e" by simp
      from "3.IH" [of e st1] Pair Inl ee obtain key p j c' a kw e0 where
        h: "Buildable j c' a \<in> set (nodes_at_args args key p)" "ctor c' kw = Some e0"
       "e = raised_at (Buildable j c' a) (path @ Attr key # p) e0 kw"
        by blast
      have "Buildable j c' a \<in> set (nodes_at (Buildable i c args) (Attr key # p))"
        using h(1) by simp
      then show ?thesis using h(2,3) by blast
    next
      case (Inr kw)
      with Pair "3.prems" obtain e0 where
        c: "ctor c kw = Some e0" and e: "e = raised_at (Buildable i c args) path e0 kw"
        by (auto simp: raised_at_def split: option.splits exn.splits)
      have "Buildable i c args \<in> set (nodes_at (Buildable i c args) [])" by simp
      then show ?thesis using c e by (metis append_Nil2)
    qed
  qed
next
  case (4 ctor path a st)
  then show ?case by simp
next
  case (5 ctor path vs st)
  from "5.IH" [of e st'] "5.prems" show ?case by simp
next
  case (6 ctor path i c args st)
  from "6.prems" have n: "memo st i = None" by (auto split: option.splits)
  with "6.prems" obtain st1 where "build_value ctor path (Buildable i c args) st = (Inl e, st1)"
    by (auto split: prod.splits sum.splits)
  from "6.IH" [OF n this] show ?case .
next
  case (7 ctor path st)
  then show ?case by simp
next
  case (8 ctor path key do_not_build sub_value args st)
  show ?case
  proof (cases do_not_build)
    case True
    with "8.prems" obtain st1 where "build_arguments ctor path args st = (Inl e, st1)"
      by (auto split: prod.splits sum.splits)
    from "8.IH"(1) [OF True this] obtain k p i c a kw e0 where
      h: "Buildable i c a \<in> set (nodes_at_args args k p)" "ctor c kw = Some e0"
       "e = raised_at (Buildable i c a) (path @ Attr k # p) e0 kw"
      by blast
    have "Buildable i c a \<in> set (nodes_at_args ((key, do_not_build, sub_value) # args) k p)"
      using h(1) by simp
    then show ?thesis using h(2,3) by blast
  next
    case False
    show ?thesis
    proof (cases "call ctor (path @ [Attr key]) sub_value st")
      case (Pair res st1)
      show ?thesis
      proof (cases res)
        case (Inl e1)
        with Pair False "8.prems" have ee: "e1 = e" by simp
        from "8.IH"(2) [OF False, of e st1] Pair Inl ee obtain p i c a kw e0 where
          h: "Buildable i c a \<in> set (nodes_at sub_value p)" "ctor c kw = Some e0"
             "e = raised_at (Buildable i c a) ((path @ [Attr key]) @ p) e0 kw"
          by blast
        have "Buildable i c a \<in> set (nodes_at_args ((key, do_not_build, sub_value) # args) key p)"
          using h(1) False by simp
        moreover have "e = raised_at (Buildable i c a) (path @ Attr key # p) e0 kw"
          using h(3) by simp
        ultimately show ?thesis using h(2) by blast
      next
        case (Inr r)
        with Pair False "8.prems" obtain st2 where
          b: "build_arguments ctor path args st1 = (Inl e, st2)"
          by (auto split: prod.splits sum.splits)
        from "8.IH"(3) [OF False Pair [symmetric] Inr b] obtain k p i c a kw e0 where
          h: "Buildable i c a \<in> set (nodes_at_args args k p)" "ctor c kw = Some e0"
             "e = raised_at (Buildable i c a) (path @ Attr k # p) e0 kw"
          by blast
        have "Buildable i c a \<in> set (nodes_at_args ((key, do_not_build, sub_value) # args) k p)"
          using h(1) by simp
        then show ?thesis using h(2,3) by blast
      qed
    qed
  qed
next
  case (9 ctor path n st)
  then show ?case by simp
next
  case (10 ctor path n v vs st)
  show ?case
  proof (cases "call ctor (path @ [Index n]) v st")
    case (Pair res st1)
    show ?thesis
    proof (cases res)
      case (Inl e1)
      with Pair "10.prems" have ee: "e1 = e" by simp
      from "10.IH"(1) [of e st1] Pair Inl ee obtain p i c a kw e0 where
        h: "Buildable i c a \<in> set (nodes_at v p)" "ctor c kw = Some e0"
           "e = raised_at (Buildable i c a) ((path @ [Index n]) @ p) e0 kw"
        by blast
      have "Buildable i c a \<in> set (nodes_at_list (v # vs) 0 p)"
        using h(1) by simp
      moreover have "e = raised_at (Buildable i c a) (path @ Index (n + 0) # p) e0 kw"
        using h(3) by simp
      ultimately show ?thesis using h(2) by blast
    next
      case (Inr r)
      with Pair "10.prems" obtain st2 where
        b: "map_children ctor path (n + 1) vs st1 = (Inl e, st2)"
        by (auto split: prod.splits sum.splits)
      from "10.IH"(2) [OF Pair [symmetric] Inr b] obtain k p i c a kw e0 where
        h: "Buildable i c a \<in> set (nodes_at_list vs k p)" "ctor c kw = Some e0"
           "e = raised_at (Buildable i c a) (path @ Index (n + 1 + k) # p) e0 kw"
        by blast
      have "Buildable i c a \<in> set (nodes_at_list (v # vs) (Suc k) p)"
        using h(1) by simp
      moreover have "e = raised_at (Buildable i c a) (path @ Index (n + Suc k) # p) e0 kw"
        using h(3) by simp
      ultimately show ?thesis using h(2) by blast
    qed
  qed
qed

section \<open>Building a config tree: what a successful build returns\<close>

lemma shares_mono:
  "m \<subseteq>\<^sub>m m' \<Longrightarrow> shares m v r \<Longrightarrow> shares m' v r"
  "m \<subseteq>\<^sub>m m' \<Longrightarrow> shares_args m args kw \<Longrightarrow> shares_args m' args kw"
  "m \<subseteq>\<^sub>m m' \<Longrightarrow> shares_list m vs rs \<Longrightarrow> shares_list m' vs rs"
proof (induction m v r and m args kw and m vs rs rule: shares_shares_args_shares_list.induct)
  case (3 m i c args r)
  from "3.prems"(2) have e: "m i = Some r" by simp
  then have "m' i = Some r" using "3.prems"(1) by (auto simp: map_le_def dom_def)
  then show ?case using "3.prems" "3.IH" by (auto split: obj.splits)
qed (auto split: obj.splits list.splits)

lemma shares_dom:
  "shares m v r \<Longrightarrow> ident ` set (visited v) \<subseteq> dom m"
  "shares_args m args kw \<Longrightarrow> ident ` set (visited_args args) \<subseteq> dom m"
  "shares_list m vs rs \<Longrightarrow> ident ` set (visited_list vs) \<subseteq> dom m"
proof (induction m v r and m args kw and m vs rs rule: shares_shares_args_shares_list.induct)
  case (5 m key do_not_build v args kwargs)
  from "5.prems" obtain r kw' where k: "kwargs = (key, r) # kw'"
    by (cases kwargs) auto
  from "5.prems" k have rest: "shares_args m args kw'" by simp
  have a: "ident ` set (visited_args args) \<subseteq> dom m"
    using "5.IH"(2) [OF k refl rest] .
  show ?case
  proof (cases do_not_build)
    case True
    then show ?thesis using a by simp
  next
    case False
    with "5.prems" k have "shares m v r" by simp
    from "5.IH"(1) [OF k refl False this] a False show ?thesis by auto
  qed
next
  case (7 m v vs rs)
  from "7.prems" obtain r rs' where k: "rs = r # rs'" by (cases rs) auto
  from "7.prems" k have h: "shares m v r" "shares_list m vs rs'" by simp_all
  from "7.IH"(1) [OF k h(1)] "7.IH"(2) [OF k h(2)] show ?case by auto
qed (auto split: obj.splits)

lemma shares_built_from:
  "shares m v r \<Longrightarrow> built_from v r"
  "shares_args m args kw \<Longrightarrow> built_from_args args kw"
  "shares_list m vs rs \<Longrightarrow> built_from_list vs rs"
proof (induction m v r and m args kw and m vs rs rule: shares_shares_args_shares_list.induct)
  case (5 m key do_not_build v args kwargs)
  from "5.prems" obtain r kw' where k: "kwargs = (key, r) # kw'"
    by (cases kwargs) auto
  from "5.prems" k have rest: "shares_args m args kw'" by simp
  have a: "built_from_args args kw'"
    using "5.IH"(2) [OF k refl rest] .
  show ?case
  proof (cases do_not_build)
    case True
    then show ?thesis using a k "5.prems" by simp
  next
    case False
    with "5.prems" k have "shares m v r" by simp
    from "5.IH"(1) [OF k refl False this] a False k show ?thesis by simp
  qed
next
  case (7 m v vs rs)
  from "7.prems" obtain r rs' where k: "rs = r # rs'" by (cases rs) auto
  from "7.prems" k have h: "shares m v r" "shares_list m vs rs'" by simp_all
  from "7.IH"(1) [OF k h(1)] "7.IH"(2) [OF k h(2)] k show ?case by simp
qed (auto split: obj.splits)

lemma visited_buildables:
  "set (visited v) \<subseteq> set (buildables v)"
  "set (visited_args args) \<subseteq> set (buildables_args args)"
  "set (visited_list vs) \<subseteq> set (buildables_list vs)"
  by (induction v and args and vs rule: visited_visited_args_visited_list.induct) auto

lemma buildables_smaller:
  "x \<in> set (buildables v) \<Longrightarrow> length (buildables x) \<le> length (buildables v)"
  "x \<in> set (buildables_args args) \<Longrightarrow> length (buildables x) \<le> length (buildables_args args)"
  "x \<in> set (buildables_list vs) \<Longrightarrow> length (buildables x) \<le> length (buildables_list vs)"
  by (induction v and args and vs rule: buildables_buildables_args_buildables_list.induct)
     (auto simp: le_Suc_eq trans_le_add1 trans_le_add2)

lemma buildable_not_below_itself:
  "Buildable i c args \<notin> set (buildables_args args)"
  using buildables_smaller(2) [of "Buildable i c args" args] by auto

lemma buildables_trans:
  "x \<in> set (buildables v) \<Longrightarrow> set (buildables x) \<subseteq> set (buildables v)"
  "x \<in> set (buildables_args args) \<Longrightarrow> set (buildables x) \<subseteq> set (buildables_args args)"
  "x \<in> set (buildables_list vs) \<Longrightarrow> set (buildables x) \<subseteq> set (buildables_list vs)"
  by (induction v and args and vs rule: buildables_buildables_args_buildables_list.induct) auto

lemma buildables_are_buildable:
  "x \<in> set (buildables v) \<Longrightarrow> \<exists>i c a. x = Buildable i c a"
  "x \<in> set (buildables_args args) \<Longrightarrow> \<exists>i c a. x = Buildable i c a"
  "x \<in> set (buildables_list vs) \<Longrightarrow> \<exists>i c a. x = Buildable i c a"
  by (induction v and args and vs rule: buildables_buildables_args_buildables_list.induct) auto

lemma fresh_identity:
  assumes u: "same_object U" and v: "Buildable i c args \<in> U"
    and s: "set (buildables_args args) \<subseteq> U"
  shows "i \<notin> ident ` set (visited_args args)"
proof
  assume "i \<in> ident ` set (visited_args args)"
  then obtain x where x: "x \<in> set (visited_args args)" and ix: "ident x = i" by auto
  from x have xb: "x \<in> set (buildables_args args)" using visited_buildables(2) by blast
  then obtain j c' a' where xe: "x = Buildable j c' a'"
    using buildables_are_buildable(2) by blast
  with ix have "j = i" by simp
  with xe xb s have "Buildable i c' a' \<in> U" by auto
  with u v have "c = c' \<and> args = a'" unfolding same_object_def by blast
  with xe \<open>j = i\<close> xb show False using buildable_not_below_itself by auto
qed

lemma memo_ok_store:
  assumes ok: "memo_ok U st1"
    and v: "Buildable i c args \<in> U"
    and none: "memo st1 i = None"
    and sh: "shares_args (memo st1) args kw"
  shows "memo_ok U
           (st1\<lparr>fresh := f, built := built st1 @ [i],
                memo := (memo st1)(i \<mapsto> Obj n c kw)\<rparr>)"
proof -
  let ?m = "(memo st1)(i \<mapsto> Obj n c kw)"
  have le: "memo st1 \<subseteq>\<^sub>m ?m" using none by (auto simp: map_le_def)
  have new: "shares ?m (Buildable i c args) (Obj n c kw)"
    using shares_mono(2) [OF le sh] by simp
  have entries: "\<forall>j r. ?m j = Some r \<longrightarrow>
         (\<exists>c a. Buildable j c a \<in> U \<and> shares ?m (Buildable j c a) r)"
  proof (intro allI impI)
    fix j r assume jr: "?m j = Some r"
    show "\<exists>c a. Buildable j c a \<in> U \<and> shares ?m (Buildable j c a) r"
    proof (cases "j = i")
      case True
      with jr have "r = Obj n c kw" by simp
      with True v new show ?thesis by blast
    next
      case False
      with jr have "memo st1 j = Some r" by simp
      with ok obtain c' a' where "Buildable j c' a' \<in> U"
        "shares (memo st1) (Buildable j c' a') r"
        unfolding memo_ok_def by blast
      then show ?thesis using shares_mono(1) [OF le] by blast
    qed
  qed
  have "set (built st1) = dom (memo st1)" "distinct (built st1)"
    using ok unfolding memo_ok_def by auto
  moreover have "i \<notin> dom (memo st1)" using none by auto
  ultimately have "set (built st1 @ [i]) = dom ?m" "distinct (built st1 @ [i])"
    by auto
  with entries show ?thesis unfolding memo_ok_def by simp
qed

lemma memo_with_root_simps:
  "memo_with_root (Buildable i c args) r st = (memo st)(i \<mapsto> r)"
  "memo_with_root (Leaf a) r st = memo st"
  "memo_with_root (Seq vs) r st = memo st"
  by (simp_all add: memo_with_root_def fun_eq_iff)

lemma visit_post_refl: "memo_ok U st \<Longrightarrow> visit_post U [] st st"
  by (simp add: visit_post_def)

lemma visit_post_trans:
  "visit_post U A st st1 \<Longrightarrow> visit_post U B st1 st2 \<Longrightarrow> visit_post U (A @ B) st st2"
  unfolding visit_post_def by (auto intro: map_le_trans simp: image_Un)

lemma visit_post_mono: "visit_post U A st st' \<Longrightarrow> memo st \<subseteq>\<^sub>m memo st'"
  by (simp add: visit_post_def)

lemma visit_post_ok: "visit_post U A st st' \<Longrightarrow> memo_ok U st'"
  by (simp add: visit_post_def)

lemma build_success:
  "same_object U \<Longrightarrow> set (buildables v) \<subseteq> U \<Longrightarrow> memo_ok U st \<Longrightarrow>
   (\<forall>i c a. v = Buildable i c a \<longrightarrow> memo st i = None) \<Longrightarrow>
   build_value ctor path v st = (Inr r, st') \<Longrightarrow>
     visit_post U (visited v) st (st'\<lparr>memo := memo_with_root v r st'\<rparr>) \<and>
     shares (memo_with_root v r st') v r"
  "same_object U \<Longrightarrow> set (buildables v) \<subseteq> U \<Longrightarrow> memo_ok U st \<Longrightarrow>
   call ctor path v st = (Inr r, st') \<Longrightarrow>
     visit_post U (visited v) st st' \<and> shares (memo st') v r"
  "same_object U \<Longrightarrow> set (buildables_args args) \<subseteq> U \<Longrightarrow> memo_ok U st \<Longrightarrow>
   build_arguments ctor path args st = (Inr kw, st') \<Longrightarrow>
     visit_post U (visited_args args) st st' \<and> shares_args (memo st') args kw"
  "same_object U \<Longrightarrow> set (buildables_list vs) \<subseteq> U \<Longrightarrow> memo_ok U st \<Longrightarrow>
   map_children ctor path n vs st = (Inr rs, st') \<Longrightarrow>
     visit_post U (visited_list vs) st st' \<and> shares_list (memo st') vs rs"
proof (induction ctor path v st and ctor path v st and ctor path args st and ctor path n vs st
       arbitrary: r st' and r st' and kw st' and rs st'
       rule: build_value_call_build_arguments_map_children.induct)
  case (1 ctor path a st)
  then show ?case by (auto simp: memo_with_root_simps visit_post_def)
next
  case (2 ctor path vs st)
  from "2.prems"(5) obtain os where
    m: "map_children ctor path 0 vs st = (Inr os, st')" and r: "r = OSeq os"
    by (auto split: prod.splits sum.splits)
  from "2.prems"(2) have sub: "set (buildables_list vs) \<subseteq> U" by simp
  from "2.IH" [OF "2.prems"(1) sub "2.prems"(3) m]
  show ?case by (simp add: memo_with_root_simps r)
next
  case (3 ctor path i c args st)
  from "3.prems"(5) obtain kw st1 where
    b: "build_arguments ctor path args st = (Inr kw, st1)"
    by (auto split: prod.splits sum.splits)
  with "3.prems"(5) have r: "r = Obj (fresh st1) c kw"
    and st': "st' = st1\<lparr>fresh := fresh st1 + 1, built := built st1 @ [i]\<rparr>"
    by (auto split: option.splits exn.splits)
  from "3.prems"(2) have vU: "Buildable i c args \<in> U"
    and sub: "set (buildables_args args) \<subseteq> U" by simp_all
  from "3.IH" [OF "3.prems"(1) sub "3.prems"(3) b]
  have post: "visit_post U (visited_args args) st st1"
    and sh: "shares_args (memo st1) args kw" by simp_all
  from "3.prems"(4) have none0: "memo st i = None" by simp
  have "i \<notin> ident ` set (visited_args args)"
    using fresh_identity [OF "3.prems"(1) vU sub] .
  moreover have "dom (memo st1) = dom (memo st) \<union> ident ` set (visited_args args)"
    using post by (simp add: visit_post_def)
  ultimately have none: "memo st1 i = None" using none0 by auto
  let ?r = "Obj (fresh st1) c kw"
  let ?st = "st1\<lparr>fresh := fresh st1 + 1, built := built st1 @ [i],
                 memo := (memo st1)(i \<mapsto> ?r)\<rparr>"
  have eq: "st'\<lparr>memo := memo_with_root (Buildable i c args) r st'\<rparr> = ?st"
    by (simp add: memo_with_root_simps r st')
  have ok: "memo_ok U ?st"
    using memo_ok_store [OF visit_post_ok [OF post] vU none sh] .
  have le1: "memo st1 \<subseteq>\<^sub>m (memo st1)(i \<mapsto> ?r)"
    using none by (auto simp: map_le_def)
  have le: "memo st \<subseteq>\<^sub>m memo ?st"
    using map_le_trans [OF visit_post_mono [OF post] le1] by simp
  have d: "dom (memo ?st) = dom (memo st) \<union> ident ` set (visited (Buildable i c args))"
    using post by (auto simp: visit_post_def)
  have s: "shares (memo_with_root (Buildable i c args) r st') (Buildable i c args) r"
    using shares_mono(2) [OF le1 sh] by (simp add: memo_with_root_simps r st')
  have "visit_post U (visited (Buildable i c args)) st ?st"
    unfolding visit_post_def using ok le d by blast
  then show ?case using s by (simp only: eq)
next
  case (4 ctor path a st)
  then show ?case by (auto simp: visit_post_def)
next
  case (5 ctor path vs st)
  from "5.prems"(4) have b: "build_value ctor path (Seq vs) st = (Inr r, st')" by simp
  from "5.IH" [OF "5.prems"(1,2,3) _ b]
  show ?case by (simp add: memo_with_root_simps)
next
  case (6 ctor path i c args st)
  from "6.prems"(2) have vU: "Buildable i c args \<in> U" by simp
  show ?case
  proof (cases "memo st i")
    case None
    with "6.prems"(4) obtain st1 where
      b: "build_value ctor path (Buildable i c args) st = (Inr r, st1)"
      and st': "st' = st1\<lparr>memo := (memo st1)(i \<mapsto> r)\<rparr>"
      by (auto split: prod.splits sum.splits)
    have pre: "\<forall>j c' a'. Buildable i c args = Buildable j c' a' \<longrightarrow> memo st j = None"
      using None by simp
    note ih = "6.IH" [OF None "6.prems"(1,2,3) pre b]
    have ms: "memo st' = (memo st1)(i \<mapsto> r)" unfolding st' by simp
    have a: "visit_post U (visited (Buildable i c args)) st st'"
      using conjunct1 [OF ih] unfolding memo_with_root_simps(1) st' .
    have "shares ((memo st1)(i \<mapsto> r)) (Buildable i c args) r"
      using conjunct2 [OF ih] unfolding memo_with_root_simps(1) .
    then have s: "shares (memo st') (Buildable i c args) r" unfolding ms .
    from a s show ?thesis by (rule conjI)
  next
    case (Some r0)
    with "6.prems"(4) have r: "r = r0" and st': "st' = st" by simp_all
    from "6.prems"(3) Some obtain c' a' where
      x: "Buildable i c' a' \<in> U" "shares (memo st) (Buildable i c' a') r0"
      unfolding memo_ok_def by blast
    from "6.prems"(1) vU x(1) have "c = c' \<and> args = a'"
      unfolding same_object_def by blast
    with x(2) have sh: "shares (memo st) (Buildable i c args) r0" by simp
    have "ident ` set (visited (Buildable i c args)) \<subseteq> dom (memo st)"
      using shares_dom(1) [OF sh] .
    then have "visit_post U (visited (Buildable i c args)) st st"
      using "6.prems"(3) unfolding visit_post_def by auto
    then show ?thesis using sh r st' by simp
  qed
next
  case (7 ctor path st)
  then show ?case by (auto simp: visit_post_def)
next
  case (8 ctor path key do_not_build sub_value args st)
  from "8.prems"(2) have subv: "set (buildables sub_value) \<subseteq> U"
    and suba: "set (buildables_args args) \<subseteq> U" by simp_all
  show ?case
  proof (cases do_not_build)
    case True
    with "8.prems"(4) obtain kw' where
      b: "build_arguments ctor path args st = (Inr kw', st')"
      and kw: "kw = (key, Unbuilt sub_value) # kw'"
      by (auto split: prod.splits sum.splits)
    from "8.IH"(1) [OF True "8.prems"(1) suba "8.prems"(3) b]
    show ?thesis using True kw by simp
  next
    case False
    with "8.prems"(4) obtain r1 st1 kw' where
      c: "call ctor (path @ [Attr key]) sub_value st = (Inr r1, st1)"
      and b: "build_arguments ctor path args st1 = (Inr kw', st')"
      and kw: "kw = (key, r1) # kw'"
      by (auto split: prod.splits sum.splits)
    from "8.IH"(2) [OF False "8.prems"(1) subv "8.prems"(3) c]
    have p1: "visit_post U (visited sub_value) st st1"
      and s1: "shares (memo st1) sub_value r1" by simp_all
    from "8.IH"(3) [OF False c [symmetric] refl "8.prems"(1) suba visit_post_ok [OF p1] b]
    have p2: "visit_post U (visited_args args) st1 st'"
      and s2: "shares_args (memo st') args kw'" by simp_all
    have "shares (memo st') sub_value r1"
      using shares_mono(1) [OF visit_post_mono [OF p2] s1] .
    then show ?thesis
      using visit_post_trans [OF p1 p2] s2 False kw by simp
  qed
next
  case (9 ctor path n st)
  then show ?case by (auto simp: visit_post_def)
next
  case (10 ctor path n v vs st)
  from "10.prems"(2) have subv: "set (buildables v) \<subseteq> U"
    and subs: "set (buildables_list vs) \<subseteq> U" by simp_all
  from "10.prems"(4) obtain r1 st1 rs' where
    c: "call ctor (path @ [Index n]) v st = (Inr r1, st1)"
    and b: "map_children ctor path (n + 1) vs st1 = (Inr rs', st')"
    and rs: "rs = r1 # rs'"
    by (auto split: prod.splits sum.splits)
  from "10.IH"(1) [OF "10.prems"(1) subv "10.prems"(3) c]
  have p1: "visit_post U (visited v) st st1"
    and s1: "shares (memo st1) v r1" by simp_all
  from "10.IH"(2) [OF c [symmetric] refl "10.prems"(1) subs visit_post_ok [OF p1] b]
  have p2: "visit_post U (visited_list vs) st1 st'"
    and s2: "shares_list (memo st') vs rs'" by simp_all
  have "shares (memo st') v r1"
    using shares_mono(1) [OF visit_post_mono [OF p2] s1] .
  then show ?case
    using visit_post_trans [OF p1 p2] s2 rs by simp
qed

lemma unique_ids_same_object: "unique_ids tree \<Longrightarrow> same_object (set (buildables tree))"
  unfolding unique_ids_def same_object_def
proof (intro allI impI)
  fix i c a c' a'
  assume u: "\<forall>x\<in>set (buildables tree). \<forall>y\<in>set (buildables tree). ident x = ident y \<longrightarrow> x = y"
    and x: "Buildable i c a \<in> set (buildables tree)"
    and y: "Buildable i c' a' \<in> set (buildables tree)"
  have "ident (Buildable i c a) = ident (Buildable i c' a')" by simp
  with u x y have "Buildable i c a = Buildable i c' a'" by blast
  then show "c = c' \<and> a = a'" by simp
qed

lemma memo_ok_initial: "memo_ok U initial_state"
  by (simp add: memo_ok_def initial_state_def)

lemma build_shares:
  assumes u: "unique_ids tree" and b: "build ctor tree = (Inr r, st)"
  shows "visit_post (set (buildables tree)) (visited tree) initial_state
           (st\<lparr>memo := memo_with_root tree r st\<rparr>)"
    and "shares (memo_with_root tree r st) tree r"
proof -
  have pre: "\<forall>i c a. tree = Buildable i c a \<longrightarrow> memo initial_state i = None"
    by (simp add: initial_state_def)
  from b have bv: "build_value ctor [] tree initial_state = (Inr r, st)"
    by (simp add: build_def)
  note s = build_success(1) [OF unique_ids_same_object [OF u] subset_refl memo_ok_initial pre bv]
  from s show "visit_post (set (buildables tree)) (visited tree) initial_state
           (st\<lparr>memo := memo_with_root tree r st\<rparr>)" by (rule conjunct1)
  from s show "shares (memo_with_root tree r st) tree r" by (rule conjunct2)
qed

lemma build_fails_only_by_callable:
  assumes "\<forall>c kw. ctor c kw = None"
  shows "\<exists>r. fst (build ctor tree) = Inr r"
proof (cases "fst (build ctor tree)")
  case (Inl e)
  then obtain st' where "build_value ctor [] tree initial_state = (Inl e, st')"
    unfolding build_def by (cases "build_value ctor [] tree initial_state") simp
  from build_error(1) [OF this] assms show ?thesis by auto
next
  case (Inr r)
  then show ?thesis by blast
qed

text \<open>
  C1. For a config tree of objects (\<open>unique_ids\<close>), what \<open>build\<close> returns is built from the
  tree as the specification says (\<open>built_from\<close>): at every Buildable that is built, an
  argument tagged \<open>DoNotBuild\<close> is passed to the callable as it is (\<open>Unbuilt\<close>, also when it
  is itself a Buildable) and every other argument is passed built, under the argument's
  name. When no callable raises, \<open>build\<close> does return such an object.
\<close>

theorem build_respects_do_not_build:
  "unique_ids tree \<Longrightarrow>
     (\<forall>r. fst (build ctor tree) = Inr r \<longrightarrow> built_from tree r) \<and>
     ((\<forall>c kw. ctor c kw = None) \<longrightarrow> (\<exists>r. fst (build ctor tree) = Inr r \<and> built_from tree r))"
proof -
  assume u: "unique_ids tree"
  have a: "\<forall>r. fst (build ctor tree) = Inr r \<longrightarrow> built_from tree r"
  proof (intro allI impI)
    fix r assume "fst (build ctor tree) = Inr r"
    then obtain st where "build ctor tree = (Inr r, st)"
      by (cases "build ctor tree") simp
    from build_shares(2) [OF u this] show "built_from tree r"
      by (rule shares_built_from(1))
  qed
  have "(\<forall>c kw. ctor c kw = None) \<longrightarrow> (\<exists>r. fst (build ctor tree) = Inr r \<and> built_from tree r)"
    using build_fails_only_by_callable [of ctor tree] a by blast
  with a show ?thesis by (rule conjI)
qed

text \<open>
  A model with a built sub-layer and a template tagged \<open>DoNotBuild\<close>: the template, and the
  Buildable inside it, stay configs.
\<close>

theorem build_respects_do_not_build_witness:
  "unique_ids
     (Buildable 0 ''Model''
        [(''encoder'', False, Buildable 1 ''Encoder'' [(''dim'', False, Leaf ''8'')]),
         (''block_tpl'', True, Buildable 2 ''Block'' [(''act'', False, Buildable 3 ''Relu'' [])])]) \<and>
   fst (build (\<lambda>c kw. None)
     (Buildable 0 ''Model''
        [(''encoder'', False, Buildable 1 ''Encoder'' [(''dim'', False, Leaf ''8'')]),
         (''block_tpl'', True, Buildable 2 ''Block'' [(''act'', False, Buildable 3 ''Relu'' [])])]))
   = Inr (Obj 1 ''Model''
        [(''encoder'', Obj 0 ''Encoder'' [(''dim'', OLeaf ''8'')]),
         (''block_tpl'',
          Unbuilt (Buildable 2 ''Block'' [(''act'', False, Buildable 3 ''Relu'' [])]))]) \<and>
   built_from
     (Buildable 0 ''Model''
        [(''encoder'', False, Buildable 1 ''Encoder'' [(''dim'', False, Leaf ''8'')]),
         (''block_tpl'', True, Buildable 2 ''Block'' [(''act'', False, Buildable 3 ''Relu'' [])])])
     (Obj 1 ''Model''
        [(''encoder'', Obj 0 ''Encoder'' [(''dim'', OLeaf ''8'')]),
         (''block_tpl'',
          Unbuilt (Buildable 2 ''Block'' [(''act'', False, Buildable 3 ''Relu'' [])]))])"
proof -
  have u: "unique_ids
     (Buildable 0 ''Model''
        [(''encoder'', False, Buildable 1 ''Encoder'' [(''dim'', False, Leaf ''8'')]),
         (''block_tpl'', True, Buildable 2 ''Block'' [(''act'', False, Buildable 3 ''Relu'' [])])])"
    by (simp add: unique_ids_def)
  have b: "fst (build (\<lambda>c kw. None)
     (Buildable 0 ''Model''
        [(''encoder'', False, Buildable 1 ''Encoder'' [(''dim'', False, Leaf ''8'')]),
         (''block_tpl'', True, Buildable 2 ''Block'' [(''act'', False, Buildable 3 ''Relu'' [])])]))
   = Inr (Obj 1 ''Model''
        [(''encoder'', Obj 0 ''Encoder'' [(''dim'', OLeaf ''8'')]),
         (''block_tpl'',
          Unbuilt (Buildable 2 ''Block'' [(''act'', False, Buildable 3 ''Relu'' [])]))])"
    by (simp add: build_def initial_state_def)
  from build_respects_do_not_build [OF u, of "\<lambda>c kw. None"] b u
  show ?thesis by simp
qed

lemma count_list_distinct:
  "distinct xs \<Longrightarrow> x \<in> set xs \<Longrightarrow> count_list xs x = 1"
  by (induction xs) auto

text \<open>
  C3. The traversal is memoized. For a config tree of objects on which \<open>build\<close> returns:
  \<open>__build__\<close> is called exactly once for every Buildable that the traversal reaches,
  however many paths lead to it, and for no other Buildable; and the result is built with
  sharing, that is, every reference to a Buildable that the traversal follows holds the one
  object made for that Buildable, at every depth (\<open>shares\<close>). The paths and references are
  those of the traversal: an argument tagged \<open>DoNotBuild\<close> is kept as it is and is not one of
  them.
\<close>

theorem build_memoized:
  "unique_ids tree \<Longrightarrow> build ctor tree = (Inr r, st) \<Longrightarrow>
     distinct (built st) \<and>
     set (built st) = ident ` set (visited tree) \<and>
     (\<forall>x \<in> set (visited tree). count_list (built st) (ident x) = 1) \<and>
     shares (memo_with_root tree r st) tree r"
proof -
  assume u: "unique_ids tree" and b: "build ctor tree = (Inr r, st)"
  from build_shares(1) [OF u b]
  have ok: "memo_ok (set (buildables tree)) (st\<lparr>memo := memo_with_root tree r st\<rparr>)"
    and d: "dom (memo (st\<lparr>memo := memo_with_root tree r st\<rparr>)) =
              dom (memo initial_state) \<union> ident ` set (visited tree)"
    unfolding visit_post_def by blast+
  from ok have d1: "distinct (built st)"
    and s0: "set (built st) = dom (memo (st\<lparr>memo := memo_with_root tree r st\<rparr>))"
    unfolding memo_ok_def by simp_all
  from d have "dom (memo (st\<lparr>memo := memo_with_root tree r st\<rparr>)) = ident ` set (visited tree)"
    by (simp add: initial_state_def)
  with s0 have s: "set (built st) = ident ` set (visited tree)" by simp
  have c: "\<forall>x \<in> set (visited tree). count_list (built st) (ident x) = 1"
    using count_list_distinct [OF d1] s by blast
  from d1 s c build_shares(2) [OF u b] show ?thesis by blast
qed

text \<open>
  One layer referenced by two arguments of a model: it is built once, and both keyword
  arguments are the same object, number 0.
\<close>

theorem build_memoized_witness:
  "unique_ids
     (Buildable 0 ''Model''
        [(''a'', False, Buildable 1 ''Layer'' []), (''b'', False, Buildable 1 ''Layer'' [])]) \<and>
   fst (build (\<lambda>c kw. None)
     (Buildable 0 ''Model''
        [(''a'', False, Buildable 1 ''Layer'' []), (''b'', False, Buildable 1 ''Layer'' [])]))
     = Inr (Obj 1 ''Model'' [(''a'', Obj 0 ''Layer'' []), (''b'', Obj 0 ''Layer'' [])]) \<and>
   built (snd (build (\<lambda>c kw. None)
     (Buildable 0 ''Model''
        [(''a'', False, Buildable 1 ''Layer'' []), (''b'', False, Buildable 1 ''Layer'' [])])))
     = [1, 0] \<and>
   count_list (built (snd (build (\<lambda>c kw. None)
     (Buildable 0 ''Model''
        [(''a'', False, Buildable 1 ''Layer'' []), (''b'', False, Buildable 1 ''Layer'' [])]))))
     1 = 1"
proof -
  have u: "unique_ids
     (Buildable 0 ''Model''
        [(''a'', False, Buildable 1 ''Layer'' []), (''b'', False, Buildable 1 ''Layer'' [])])"
    by (simp add: unique_ids_def)
  have f: "fst (build (\<lambda>c kw. None)
     (Buildable 0 ''Model''
        [(''a'', False, Buildable 1 ''Layer'' []), (''b'', False, Buildable 1 ''Layer'' [])]))
     = Inr (Obj 1 ''Model'' [(''a'', Obj 0 ''Layer'' []), (''b'', Obj 0 ''Layer'' [])])"
    by (simp add: build_def initial_state_def)
  have l: "built (snd (build (\<lambda>c kw. None)
     (Buildable 0 ''Model''
        [(''a'', False, Buildable 1 ''Layer'' []), (''b'', False, Buildable 1 ''Layer'' [])])))
     = [1, 0]"
    by (simp add: build_def initial_state_def)
  have p: "build (\<lambda>c kw. None)
     (Buildable 0 ''Model''
        [(''a'', False, Buildable 1 ''Layer'' []), (''b'', False, Buildable 1 ''Layer'' [])])
     = (Inr (Obj 1 ''Model'' [(''a'', Obj 0 ''Layer'' []), (''b'', Obj 0 ''Layer'' [])]),
        snd (build (\<lambda>c kw. None)
          (Buildable 0 ''Model''
            [(''a'', False, Buildable 1 ''Layer'' []), (''b'', False, Buildable 1 ''Layer'' [])])))"
    using f by (simp add: prod_eq_iff)
  from build_memoized [OF u p] have
    "\<forall>x \<in> set (visited (Buildable 0 ''Model''
        [(''a'', False, Buildable 1 ''Layer'' []), (''b'', False, Buildable 1 ''Layer'' [])])).
       count_list (built (snd (build (\<lambda>c kw. None)
     (Buildable 0 ''Model''
        [(''a'', False, Buildable 1 ''Layer'' []), (''b'', False, Buildable 1 ''Layer'' [])]))))
        (ident x) = 1"
    by blast
  then have "count_list (built (snd (build (\<lambda>c kw. None)
     (Buildable 0 ''Model''
        [(''a'', False, Buildable 1 ''Layer'' []), (''b'', False, Buildable 1 ''Layer'' [])]))))
     1 = 1"
    by simp
  with u f l show ?thesis by blast
qed

section \<open>Building a config tree: a callable that raises\<close>

lemma build_calls_returned:
  "memo_called ctor st \<Longrightarrow> build_value ctor path v st = (Inr r, st') \<Longrightarrow>
     memo_called ctor st' \<and> called_ok ctor r"
  "memo_called ctor st \<Longrightarrow> call ctor path v st = (Inr r, st') \<Longrightarrow>
     memo_called ctor st' \<and> called_ok ctor r"
  "memo_called ctor st \<Longrightarrow> build_arguments ctor path args st = (Inr kw, st') \<Longrightarrow>
     memo_called ctor st'"
  "memo_called ctor st \<Longrightarrow> map_children ctor path n vs st = (Inr rs, st') \<Longrightarrow>
     memo_called ctor st'"
proof (induction ctor path v st and ctor path v st and ctor path args st and ctor path n vs st
       arbitrary: r st' and r st' and kw st' and rs st'
       rule: build_value_call_build_arguments_map_children.induct)
  case (1 ctor path a st)
  then show ?case by (auto simp: called_ok_def)
next
  case (2 ctor path vs st)
  from "2.prems"(2) obtain os where
    m: "map_children ctor path 0 vs st = (Inr os, st')" and r: "r = OSeq os"
    by (auto split: prod.splits sum.splits)
  from "2.IH" [OF "2.prems"(1) m] show ?case by (simp add: called_ok_def r)
next
  case (3 ctor path i c args st)
  from "3.prems"(2) obtain kw st1 where
    b: "build_arguments ctor path args st = (Inr kw, st1)"
    by (auto split: prod.splits sum.splits)
  with "3.prems"(2) have r: "r = Obj (fresh st1) c kw" and c: "ctor c kw = None"
    and st': "st' = st1\<lparr>fresh := fresh st1 + 1, built := built st1 @ [i]\<rparr>"
    by (auto split: option.splits exn.splits)
  from "3.IH" [OF "3.prems"(1) b] have "memo_called ctor st1" .
  then show ?case by (simp add: memo_called_def st' r c called_ok_def)
next
  case (4 ctor path a st)
  then show ?case by (auto simp: called_ok_def)
next
  case (5 ctor path vs st)
  from "5.prems"(2) have b: "build_value ctor path (Seq vs) st = (Inr r, st')" by simp
  from "5.IH" [OF "5.prems"(1) b] show ?case .
next
  case (6 ctor path i c args st)
  show ?case
  proof (cases "memo st i")
    case None
    with "6.prems"(2) obtain st1 where
      b: "build_value ctor path (Buildable i c args) st = (Inr r, st1)"
      and st': "st' = st1\<lparr>memo := (memo st1)(i \<mapsto> r)\<rparr>"
      by (auto split: prod.splits sum.splits)
    from "6.IH" [OF None "6.prems"(1) b]
    show ?thesis by (auto simp: memo_called_def st')
  next
    case (Some r0)
    with "6.prems"(2) have "r = r0" "st' = st" by simp_all
    with Some "6.prems"(1) show ?thesis by (auto simp: memo_called_def)
  qed
next
  case (7 ctor path st)
  then show ?case by simp
next
  case (8 ctor path key do_not_build sub_value args st)
  show ?case
  proof (cases do_not_build)
    case True
    with "8.prems"(2) obtain kw' where
      b: "build_arguments ctor path args st = (Inr kw', st')"
      by (auto split: prod.splits sum.splits)
    from "8.IH"(1) [OF True "8.prems"(1) b] show ?thesis .
  next
    case False
    with "8.prems"(2) obtain r1 st1 kw' where
      c: "call ctor (path @ [Attr key]) sub_value st = (Inr r1, st1)"
      and b: "build_arguments ctor path args st1 = (Inr kw', st')"
      by (auto split: prod.splits sum.splits)
    from "8.IH"(2) [OF False "8.prems"(1) c] have "memo_called ctor st1" by simp
    from "8.IH"(3) [OF False c [symmetric] refl this b] show ?thesis .
  qed
next
  case (9 ctor path n st)
  then show ?case by simp
next
  case (10 ctor path n v vs st)
  from "10.prems"(2) obtain r1 st1 rs' where
    c: "call ctor (path @ [Index n]) v st = (Inr r1, st1)"
    and b: "map_children ctor path (n + 1) vs st1 = (Inr rs', st')"
    by (auto split: prod.splits sum.splits)
  from "10.IH"(1) [OF "10.prems"(1) c] have "memo_called ctor st1" by simp
  from "10.IH"(2) [OF c [symmetric] refl this b] show ?case .
qed

lemma shares_visited:
  "shares m v r \<Longrightarrow> Buildable i c args \<in> set (visited v) \<Longrightarrow>
     \<exists>n kw. m i = Some (Obj n c kw) \<and> shares_args m args kw"
  "shares_args m as kws \<Longrightarrow> Buildable i c args \<in> set (visited_args as) \<Longrightarrow>
     \<exists>n kw. m i = Some (Obj n c kw) \<and> shares_args m args kw"
  "shares_list m vs rs \<Longrightarrow> Buildable i c args \<in> set (visited_list vs) \<Longrightarrow>
     \<exists>n kw. m i = Some (Obj n c kw) \<and> shares_args m args kw"
proof (induction m v r and m as kws and m vs rs rule: shares_shares_args_shares_list.induct)
  case (1 m a r)
  then show ?case by simp
next
  case (2 m vs r)
  then show ?case by (cases r) auto
next
  case (3 m j c' as r)
  from "3.prems"(1) obtain n kw where r: "r = Obj n c' kw" and mj: "m j = Some r"
    and sa: "shares_args m as kw"
    by (cases r) auto
  from "3.prems"(2) have "Buildable i c args = Buildable j c' as \<or>
      Buildable i c args \<in> set (visited_args as)" by simp
  then show ?case
  proof
    assume "Buildable i c args = Buildable j c' as"
    with r mj sa show ?thesis by auto
  next
    assume "Buildable i c args \<in> set (visited_args as)"
    from "3.IH" [OF r sa this] show ?thesis .
  qed
next
  case (4 m kwargs)
  then show ?case by simp
next
  case (5 m key do_not_build v as kwargs)
  from "5.prems"(1) obtain r kw' where k: "kwargs = (key, r) # kw'"
    by (cases kwargs) auto
  from "5.prems"(1) k have rest: "shares_args m as kw'" by simp
  show ?case
  proof (cases "Buildable i c args \<in> set (visited_args as)")
    case True
    from "5.IH"(2) [OF k refl rest True] show ?thesis .
  next
    case False
    with "5.prems"(2) have nd: "\<not> do_not_build" and x: "Buildable i c args \<in> set (visited v)"
      by (auto split: if_splits)
    from "5.prems"(1) k nd have "shares m v r" by simp
    from "5.IH"(1) [OF k refl nd this x] show ?thesis .
  qed
next
  case (6 m rs)
  then show ?case by simp
next
  case (7 m v vs rs)
  from "7.prems"(1) obtain r rs' where k: "rs = r # rs'" by (cases rs) auto
  from "7.prems"(1) k have h: "shares m v r" "shares_list m vs rs'" by simp_all
  from "7.prems"(2) have "Buildable i c args \<in> set (visited v) \<or>
      Buildable i c args \<in> set (visited_list vs)" by simp
  then show ?case
  proof
    assume "Buildable i c args \<in> set (visited v)"
    from "7.IH"(1) [OF k h(1) this] show ?thesis .
  next
    assume "Buildable i c args \<in> set (visited_list vs)"
    from "7.IH"(2) [OF k h(2) this] show ?thesis .
  qed
qed

lemma build_success_calls:
  assumes u: "unique_ids tree" and b: "build ctor tree = (Inr r, st)"
    and x: "Buildable i c args \<in> set (visited tree)"
  shows "\<exists>kw. built_from_args args kw \<and> ctor c kw = None"
proof -
  from build_shares(2) [OF u b] have sh: "shares (memo_with_root tree r st) tree r" .
  from shares_visited(1) [OF sh x] obtain n kw where
    m: "memo_with_root tree r st i = Some (Obj n c kw)"
    and sa: "shares_args (memo_with_root tree r st) args kw" by blast
  have mc0: "memo_called ctor initial_state"
    by (simp add: memo_called_def initial_state_def)
  from b have bv: "build_value ctor [] tree initial_state = (Inr r, st)"
    by (simp add: build_def)
  from build_calls_returned(1) [OF mc0 bv] have mc: "memo_called ctor st"
    and ok: "called_ok ctor r" by simp_all
  have "called_ok ctor (Obj n c kw)"
  proof (cases "memo st i = Some (Obj n c kw)")
    case True
    with mc show ?thesis unfolding memo_called_def by blast
  next
    case False
    with m have "r = Obj n c kw"
      by (cases tree) (auto simp: memo_with_root_simps split: if_splits)
    with ok show ?thesis by simp
  qed
  then have "ctor c kw = None" by (simp add: called_ok_def)
  with shares_built_from(2) [OF sa] show ?thesis by blast
qed

lemma nodes_at_buildables:
  "Buildable i c a \<in> set (nodes_at v p) \<Longrightarrow> Buildable i c a \<in> set (buildables v)"
  "Buildable i c a \<in> set (nodes_at_args as key p) \<Longrightarrow>
     Buildable i c a \<in> set (buildables_args as)"
  "Buildable i c a \<in> set (nodes_at_list vs n p) \<Longrightarrow>
     Buildable i c a \<in> set (buildables_list vs)"
  by (induction v p and as key p and vs n p rule: nodes_at_nodes_at_args_nodes_at_list.induct)
     (auto split: if_splits)

text \<open>
  C4. A Buildable whose callable raises makes \<open>build\<close> fail, at the root or below it: when
  the tree has a Buildable that \<open>build\<close> visits and whose callable raises for every keyword
  arguments built from its arguments, \<open>build\<close> does not return; and when it is the only
  Buildable whose callable raises, the failure holds this Buildable, a path that leads to it
  and the exception its callable raised. Every failure of \<open>build\<close>
  comes from one Buildable of the tree, reached from the root by a path \<open>p\<close> that passes no
  \<open>DoNotBuild\<close> tag, whose callable raised an exception \<open>e0\<close>; the failure is
  \<open>TaggedValueNotFilledError\<close> itself when that is what the callable raised, and otherwise
  a \<open>BuildError\<close> that holds this Buildable, the string \<open><root>\<close> followed by the path \<open>p\<close>,
  the original exception \<open>e0\<close> and the keyword arguments. No Buildable above the failing
  one wraps the error again. When the arguments of the root are built and the root's
  callable raises, \<open>build\<close> fails with the error of the root. The exceptions are those that
  \<open>except Exception\<close> catches.
\<close>

theorem build_error_has_path:
  "(fst (build ctor tree) = Inl e \<longrightarrow>
      (\<exists>p i c args kwargs e0.
          Buildable i c args \<in> set (nodes_at tree p) \<and> ctor c kwargs = Some e0 \<and>
          (if e0 = TaggedValueNotFilledError then e = TaggedValueNotFilledError
           else e = BuildError (Buildable i c args) (''<root>'' @ path_str p) e0 kwargs))) \<and>
   (\<forall>kwargs st e0.
      build_arguments ctor [] args0 initial_state = (Inr kwargs, st) \<and>
      ctor c0 kwargs = Some e0 \<longrightarrow>
      fst (build ctor (Buildable i0 c0 args0)) =
        Inl (if e0 = TaggedValueNotFilledError then TaggedValueNotFilledError
             else BuildError (Buildable i0 c0 args0) (''<root>'' @ path_str []) e0 kwargs)) \<and>
   (unique_ids tree \<and> Buildable i1 c1 args1 \<in> set (visited tree) \<and>
    (\<forall>kwargs. built_from_args args1 kwargs \<longrightarrow> ctor c1 kwargs \<noteq> None) \<longrightarrow>
      (\<exists>e' p i c args kwargs e0.
          fst (build ctor tree) = Inl e' \<and>
          Buildable i c args \<in> set (nodes_at tree p) \<and> ctor c kwargs = Some e0 \<and>
          (if e0 = TaggedValueNotFilledError then e' = TaggedValueNotFilledError
           else e' = BuildError (Buildable i c args) (''<root>'' @ path_str p) e0 kwargs))) \<and>
   (unique_ids tree \<and> Buildable i1 c1 args1 \<in> set (visited tree) \<and>
    (\<forall>kwargs. built_from_args args1 kwargs \<longrightarrow> ctor c1 kwargs \<noteq> None) \<and>
    (\<forall>c kwargs. c \<noteq> c1 \<longrightarrow> ctor c kwargs = None) \<and>
    (\<forall>i a. Buildable i c1 a \<in> set (buildables tree) \<longrightarrow> i = i1) \<longrightarrow>
      (\<exists>p kwargs e0.
          Buildable i1 c1 args1 \<in> set (nodes_at tree p) \<and> ctor c1 kwargs = Some e0 \<and>
          fst (build ctor tree) =
            Inl (if e0 = TaggedValueNotFilledError then TaggedValueNotFilledError
                 else BuildError (Buildable i1 c1 args1) (''<root>'' @ path_str p) e0 kwargs)))"
proof -
  have located: "\<And>e. fst (build ctor tree) = Inl e \<Longrightarrow>
      \<exists>p i c args kwargs e0.
          Buildable i c args \<in> set (nodes_at tree p) \<and> ctor c kwargs = Some e0 \<and>
          (if e0 = TaggedValueNotFilledError then e = TaggedValueNotFilledError
           else e = BuildError (Buildable i c args) (''<root>'' @ path_str p) e0 kwargs)"
  proof -
    fix e assume f: "fst (build ctor tree) = Inl e"
    then obtain st' where "build_value ctor [] tree initial_state = (Inl e, st')"
      unfolding build_def by (cases "build_value ctor [] tree initial_state") simp
    from build_error(1) [OF this] obtain p i c a kw e0 where
      h: "Buildable i c a \<in> set (nodes_at tree p)" "ctor c kw = Some e0"
         "e = raised_at (Buildable i c a) ([] @ p) e0 kw"
      by blast
    have "if e0 = TaggedValueNotFilledError then e = TaggedValueNotFilledError
          else e = BuildError (Buildable i c a) (''<root>'' @ path_str p) e0 kw"
      using h(3) by (simp add: raised_at_def)
    with h(1,2) show "\<exists>p i c args kwargs e0.
          Buildable i c args \<in> set (nodes_at tree p) \<and> ctor c kwargs = Some e0 \<and>
          (if e0 = TaggedValueNotFilledError then e = TaggedValueNotFilledError
           else e = BuildError (Buildable i c args) (''<root>'' @ path_str p) e0 kwargs)"
      by blast
  qed
  have a: "fst (build ctor tree) = Inl e \<longrightarrow>
      (\<exists>p i c args kwargs e0.
          Buildable i c args \<in> set (nodes_at tree p) \<and> ctor c kwargs = Some e0 \<and>
          (if e0 = TaggedValueNotFilledError then e = TaggedValueNotFilledError
           else e = BuildError (Buildable i c args) (''<root>'' @ path_str p) e0 kwargs))"
    using located by blast
  have b: "\<forall>kwargs st e0.
      build_arguments ctor [] args0 initial_state = (Inr kwargs, st) \<and>
      ctor c0 kwargs = Some e0 \<longrightarrow>
      fst (build ctor (Buildable i0 c0 args0)) =
        Inl (if e0 = TaggedValueNotFilledError then TaggedValueNotFilledError
             else BuildError (Buildable i0 c0 args0) (''<root>'' @ path_str []) e0 kwargs)"
  proof (intro allI impI)
    fix kwargs st e0
    assume "build_arguments ctor [] args0 initial_state = (Inr kwargs, st) \<and>
      ctor c0 kwargs = Some e0"
    then show "fst (build ctor (Buildable i0 c0 args0)) =
        Inl (if e0 = TaggedValueNotFilledError then TaggedValueNotFilledError
             else BuildError (Buildable i0 c0 args0) (''<root>'' @ path_str []) e0 kwargs)"
      by (cases e0) (simp_all add: build_def)
  qed
  have c: "unique_ids tree \<and> Buildable i1 c1 args1 \<in> set (visited tree) \<and>
    (\<forall>kwargs. built_from_args args1 kwargs \<longrightarrow> ctor c1 kwargs \<noteq> None) \<longrightarrow>
      (\<exists>e' p i c args kwargs e0.
          fst (build ctor tree) = Inl e' \<and>
          Buildable i c args \<in> set (nodes_at tree p) \<and> ctor c kwargs = Some e0 \<and>
          (if e0 = TaggedValueNotFilledError then e' = TaggedValueNotFilledError
           else e' = BuildError (Buildable i c args) (''<root>'' @ path_str p) e0 kwargs))"
  proof
    assume h: "unique_ids tree \<and> Buildable i1 c1 args1 \<in> set (visited tree) \<and>
      (\<forall>kwargs. built_from_args args1 kwargs \<longrightarrow> ctor c1 kwargs \<noteq> None)"
    have "\<exists>e'. fst (build ctor tree) = Inl e'"
    proof (cases "build ctor tree")
      case (Pair res st)
      show ?thesis
      proof (cases res)
        case (Inl e')
        with Pair show ?thesis by simp
      next
        case (Inr r)
        with Pair have "build ctor tree = (Inr r, st)" by simp
        from build_success_calls [OF _ this] h show ?thesis by blast
      qed
    qed
    then obtain e' where f: "fst (build ctor tree) = Inl e'" by blast
    from located [OF f] f show "\<exists>e' p i c args kwargs e0.
          fst (build ctor tree) = Inl e' \<and>
          Buildable i c args \<in> set (nodes_at tree p) \<and> ctor c kwargs = Some e0 \<and>
          (if e0 = TaggedValueNotFilledError then e' = TaggedValueNotFilledError
           else e' = BuildError (Buildable i c args) (''<root>'' @ path_str p) e0 kwargs)"
      by blast
  qed
  have d: "unique_ids tree \<and> Buildable i1 c1 args1 \<in> set (visited tree) \<and>
    (\<forall>kwargs. built_from_args args1 kwargs \<longrightarrow> ctor c1 kwargs \<noteq> None) \<and>
    (\<forall>c kwargs. c \<noteq> c1 \<longrightarrow> ctor c kwargs = None) \<and>
    (\<forall>i a. Buildable i c1 a \<in> set (buildables tree) \<longrightarrow> i = i1) \<longrightarrow>
      (\<exists>p kwargs e0.
          Buildable i1 c1 args1 \<in> set (nodes_at tree p) \<and> ctor c1 kwargs = Some e0 \<and>
          fst (build ctor tree) =
            Inl (if e0 = TaggedValueNotFilledError then TaggedValueNotFilledError
                 else BuildError (Buildable i1 c1 args1) (''<root>'' @ path_str p) e0 kwargs))"
  proof
    assume h: "unique_ids tree \<and> Buildable i1 c1 args1 \<in> set (visited tree) \<and>
      (\<forall>kwargs. built_from_args args1 kwargs \<longrightarrow> ctor c1 kwargs \<noteq> None) \<and>
      (\<forall>c kwargs. c \<noteq> c1 \<longrightarrow> ctor c kwargs = None) \<and>
      (\<forall>i a. Buildable i c1 a \<in> set (buildables tree) \<longrightarrow> i = i1)"
    with c obtain e' p i c' args kwargs e0 where
      f: "fst (build ctor tree) = Inl e'"
      and n: "Buildable i c' args \<in> set (nodes_at tree p)"
      and r: "ctor c' kwargs = Some e0"
      and e: "if e0 = TaggedValueNotFilledError then e' = TaggedValueNotFilledError
           else e' = BuildError (Buildable i c' args) (''<root>'' @ path_str p) e0 kwargs"
      by blast
    from h r have cc: "c' = c1" by (metis option.distinct(1))
    from n have nb: "Buildable i c' args \<in> set (buildables tree)"
      by (rule nodes_at_buildables(1))
    with h cc have ii: "i = i1" by blast
    from h have xb: "Buildable i1 c1 args1 \<in> set (buildables tree)"
      using visited_buildables(1) by blast
    from h have u: "unique_ids tree" by simp
    have "Buildable i c' args = Buildable i1 c1 args1"
      using u nb xb ii unfolding unique_ids_def by (metis ident.simps(1))
    with n r e f show "\<exists>p kwargs e0.
          Buildable i1 c1 args1 \<in> set (nodes_at tree p) \<and> ctor c1 kwargs = Some e0 \<and>
          fst (build ctor tree) =
            Inl (if e0 = TaggedValueNotFilledError then TaggedValueNotFilledError
                 else BuildError (Buildable i1 c1 args1) (''<root>'' @ path_str p) e0 kwargs)"
      by (cases "e0 = TaggedValueNotFilledError") auto
  qed
  from a b c d show ?thesis by blast
qed

text \<open>
  A model with a list of two layers whose second layer's callable raises: the build fails,
  and the error names the path \<open>.layers[1]\<close>. A callable that raises
  \<open>TaggedValueNotFilledError\<close>: the build fails with that exception itself.
\<close>

theorem build_error_has_path_witness:
  "unique_ids
     (Buildable 0 ''Model''
        [(''layers'', False,
          Seq [Buildable 1 ''Ok'' [],
               Buildable 2 ''Bad'' [(''dim'', False, Leaf ''8'')]])]) \<and>
   Buildable 2 ''Bad'' [(''dim'', False, Leaf ''8'')] \<in> set (visited
     (Buildable 0 ''Model''
        [(''layers'', False,
          Seq [Buildable 1 ''Ok'' [],
               Buildable 2 ''Bad'' [(''dim'', False, Leaf ''8'')]])])) \<and>
   fst (build (\<lambda>c kw. if c = ''Bad'' then Some (Exception ''boom'') else None)
         (Buildable 0 ''Model''
            [(''layers'', False,
              Seq [Buildable 1 ''Ok'' [],
                   Buildable 2 ''Bad'' [(''dim'', False, Leaf ''8'')]])]))
     = Inl (BuildError (Buildable 2 ''Bad'' [(''dim'', False, Leaf ''8'')])
              ''<root>.layers[1]'' (Exception ''boom'') [(''dim'', OLeaf ''8'')]) \<and>
   fst (build (\<lambda>c kw. if c = ''Slot'' then Some TaggedValueNotFilledError else None)
         (Buildable 0 ''Model'' [(''x'', False, Buildable 1 ''Slot'' [])]))
     = Inl TaggedValueNotFilledError"
  using build_error_has_path
    [where ctor = "\<lambda>c kw. if c = ''Bad'' then Some (Exception ''boom'') else None"
       and tree = "Buildable 0 ''Model''
            [(''layers'', False,
              Seq [Buildable 1 ''Ok'' [],
                   Buildable 2 ''Bad'' [(''dim'', False, Leaf ''8'')]])]"
       and e = "BuildError (Buildable 2 ''Bad'' [(''dim'', False, Leaf ''8'')])
              ''<root>.layers[1]'' (Exception ''boom'') [(''dim'', OLeaf ''8'')]"
       and ?args0.0 = "[(''x'', False, Buildable 1 ''Slot'' [])]" and ?c0.0 = "''Model''"
       and ?i0.0 = 0
       and ?i1.0 = 2 and ?c1.0 = "''Bad''" and ?args1.0 = "[(''dim'', False, Leaf ''8'')]"]
  by (simp add: unique_ids_def build_def initial_state_def path_str_def str_nat_1)

end
